theory Spec2Isabelle
  imports Main "HOL-Library.Char_ord"
begin

section \<open>Go values\<close>

text \<open>
  A Go \<open>string\<close> and a \<open>[]byte\<close> are byte sequences: both are \<^typ>\<open>string\<close>, a list of
  8-bit \<^typ>\<open>char\<close>s. A \<open>rune\<close> is an \<open>int32\<close>, an \<open>int\<close> has 64 bits; both are \<^typ>\<open>int\<close>
  here, and the one narrowing conversion of the source, \<open>rune(int32(v))\<close>, is written
  out in \<open>int32\<close>. A Go \<open>(string, error)\<close> result is the pair \<open>string \<times> error option\<close>,
  \<open>None\<close> for \<open>nil\<close>. An \<open>error\<close> is its message.
\<close>

type_synonym rune = int

datatype error = Error string

type_synonym result = "string \<times> error option"

abbreviation BSL :: char where "BSL \<equiv> CHR 0x5C"
abbreviation CR :: char where "CR \<equiv> CHR 0x0D"
abbreviation LF :: char where "LF \<equiv> CHR 0x0A"
abbreviation TAB :: char where "TAB \<equiv> CHR 0x09"

definition int32 :: "int \<Rightarrow> int" where
  "int32 v = (v + 2147483648) mod 4294967296 - 2147483648"

subsection \<open>Package unicode/utf8\<close>

definition RuneError :: rune where
  "RuneError = 0xFFFD"

text \<open>The table \<open>first\<close> of the package with its accept ranges: for a lead byte, the
  length of the sequence and the bounds of its second byte.\<close>

datatype first_info = AS | XX | Lead nat nat nat

definition first :: "char \<Rightarrow> first_info" where
  "first c = (let n = (of_char c :: nat) in
     if n < 0x80 then AS
     else if n < 0xC2 then XX
     else if n < 0xE0 then Lead 2 0x80 0xBF
     else if n = 0xE0 then Lead 3 0xA0 0xBF
     else if n < 0xED then Lead 3 0x80 0xBF
     else if n = 0xED then Lead 3 0x80 0x9F
     else if n < 0xF0 then Lead 3 0x80 0xBF
     else if n = 0xF0 then Lead 4 0x90 0xBF
     else if n < 0xF4 then Lead 4 0x80 0xBF
     else if n = 0xF4 then Lead 4 0x80 0x8F
     else XX)"

definition contb :: "char \<Rightarrow> bool" where
  "contb c \<longleftrightarrow> 0x80 \<le> (of_char c :: nat) \<and> (of_char c :: nat) \<le> 0xBF"

text \<open>\<open>utf8.DecodeRuneInString\<close>: the rune at the head of \<open>s\<close> and its width; an
  invalid or short sequence is \<open>RuneError\<close> of width 1.\<close>

definition DecodeRune :: "string \<Rightarrow> rune \<times> nat" where
  "DecodeRune s =
     (case s of [] \<Rightarrow> (RuneError, 0)
      | s0 # t \<Rightarrow>
        (case first s0 of
           AS \<Rightarrow> (of_char s0, 1)
         | XX \<Rightarrow> (RuneError, 1)
         | Lead sz lo hi \<Rightarrow>
             if length s < sz then (RuneError, 1)
             else if (of_char (s ! 1) :: nat) < lo \<or> hi < (of_char (s ! 1) :: nat)
               then (RuneError, 1)
             else if sz \<le> 2
               then ((of_char s0 mod 32) * 64 + of_char (s ! 1) mod 64, 2)
             else if \<not> contb (s ! 2) then (RuneError, 1)
             else if sz \<le> 3
               then ((of_char s0 mod 16) * 4096 + (of_char (s ! 1) mod 64) * 64
                     + of_char (s ! 2) mod 64, 3)
             else if \<not> contb (s ! 3) then (RuneError, 1)
             else ((of_char s0 mod 8) * 262144 + (of_char (s ! 1) mod 64) * 4096
                   + (of_char (s ! 2) mod 64) * 64 + of_char (s ! 3) mod 64, 4)))"

lemma DecodeRune_width: "s \<noteq> [] \<Longrightarrow> 0 < snd (DecodeRune s)"
  by (cases s) (auto simp: DecodeRune_def split: first_info.splits)

text \<open>The runes a \<open>for _, r := range s\<close> loop visits.\<close>

function runes_of :: "string \<Rightarrow> rune list" where
  "runes_of s =
     (if s = [] then []
      else fst (DecodeRune s) # runes_of (drop (snd (DecodeRune s)) s))"
  by pat_completeness auto
termination
proof (relation "measure length")
  fix s :: string
  assume "s \<noteq> []"
  with DecodeRune_width [of s]
  show "(drop (snd (DecodeRune s)) s, s) \<in> measure length"
    by (cases s) auto
qed simp

declare runes_of.simps [simp del]

text \<open>\<open>utf8.Valid\<close> and \<open>utf8.ValidString\<close>.\<close>

function utf8_Valid :: "string \<Rightarrow> bool" where
  "utf8_Valid p =
     (if p = [] then True
      else (case first (hd p) of
           AS \<Rightarrow> utf8_Valid (tl p)
         | XX \<Rightarrow> False
         | Lead sz lo hi \<Rightarrow>
             if length p < sz then False
             else if (of_char (p ! 1) :: nat) < lo \<or> hi < (of_char (p ! 1) :: nat) then False
             else if sz = 2 then utf8_Valid (drop 2 p)
             else if \<not> contb (p ! 2) then False
             else if sz = 3 then utf8_Valid (drop 3 p)
             else if \<not> contb (p ! 3) then False
             else utf8_Valid (drop 4 p)))"
  by pat_completeness auto
termination
  by (relation "measure length") (auto simp: neq_Nil_conv)

declare utf8_Valid.simps [simp del]

text \<open>\<open>utf8.AppendRune\<close>, which \<open>strings.Builder.WriteRune\<close> and the conversion
  \<open>string(runes)\<close> use: a rune that is negative, above \<open>0x10FFFF\<close> or a surrogate is
  written as \<open>RuneError\<close>.\<close>

definition EncodeRune :: "rune \<Rightarrow> string" where
  "EncodeRune r =
     (if 0 \<le> r \<and> r \<le> 0x7F then [char_of r]
      else if 0 \<le> r \<and> r \<le> 0x7FF
        then [char_of (0xC0 + r div 64), char_of (0x80 + r mod 64)]
      else if r < 0 \<or> 0x10FFFF < r \<or> (0xD800 \<le> r \<and> r \<le> 0xDFFF)
        then [CHR 0xEF, CHR 0xBF, CHR 0xBD]
      else if r \<le> 0xFFFF
        then [char_of (0xE0 + r div 4096), char_of (0x80 + (r div 64) mod 64),
              char_of (0x80 + r mod 64)]
      else [char_of (0xF0 + r div 262144), char_of (0x80 + (r div 4096) mod 64),
            char_of (0x80 + (r div 64) mod 64), char_of (0x80 + r mod 64)])"

definition string_of_runes :: "rune list \<Rightarrow> string" where
  "string_of_runes rs = concat (map EncodeRune rs)"

subsection \<open>Package unicode/utf16\<close>

text \<open>\<open>utf16.Decode\<close> on 16-bit units: a surrogate pair is one rune, a lone surrogate
  is U+FFFD.\<close>

fun utf16_Decode :: "int list \<Rightarrow> rune list" where
  "utf16_Decode [] = []"
| "utf16_Decode (r # rest) =
     (if r < 0xD800 \<or> 0xE000 \<le> r then r # utf16_Decode rest
      else if 0xD800 \<le> r \<and> r < 0xDC00 \<and> rest \<noteq> []
              \<and> 0xDC00 \<le> hd rest \<and> hd rest < 0xE000
        then ((r - 0xD800) * 1024 + (hd rest - 0xDC00) + 0x10000) # utf16_Decode (tl rest)
      else RuneError # utf16_Decode rest)"

subsection \<open>Package strings\<close>

definition HasPrefix :: "string \<Rightarrow> string \<Rightarrow> bool" where
  "HasPrefix s p \<longleftrightarrow> take (length p) s = p"

text \<open>\<open>strings.ReplaceAll\<close>: the non-overlapping occurrences of \<open>old\<close>, found from the
  left, are replaced by \<open>new\<close>; an empty \<open>old\<close> matches before every rune and at the end.\<close>

function insert_at_runes :: "string \<Rightarrow> string \<Rightarrow> string" where
  "insert_at_runes new s =
     (if s = [] then new
      else new @ take (snd (DecodeRune s)) s
           @ insert_at_runes new (drop (snd (DecodeRune s)) s))"
  by pat_completeness auto
termination
proof (relation "measure (\<lambda>(new, s). length s)")
  fix new s :: string
  assume "s \<noteq> []"
  with DecodeRune_width [of s]
  show "((new, drop (snd (DecodeRune s)) s), (new, s)) \<in> measure (\<lambda>(new, s). length s)"
    by (cases s) auto
qed simp

declare insert_at_runes.simps [simp del]

fun replace_scan :: "string \<Rightarrow> string \<Rightarrow> string \<Rightarrow> string" where
  "replace_scan old new [] = []"
| "replace_scan old new (c # cs) =
     (if HasPrefix (c # cs) old
      then new @ replace_scan old new (drop (length old - 1) cs)
      else c # replace_scan old new cs)"

definition ReplaceAll :: "string \<Rightarrow> string \<Rightarrow> string \<Rightarrow> string" where
  "ReplaceAll s old new =
     (if old = [] then insert_at_runes new s else replace_scan old new s)"

subsection \<open>Collaborators outside the repository\<close>

text \<open>
  The extraction engine calls the \<open>pdftotext\<close> executable, the zip and XML readers of
  the standard library, the code-page tables of \<open>golang.org/x/text/encoding/charmap\<close>
  and the case tables of package \<open>unicode\<close>. None of them is part of the repository; the
  record \<open>env\<close> holds what they answer, and every theorem holds for every \<open>env\<close>.
\<close>

text \<open>One run of \<open>exec.Command("pdftotext", "-layout", "-", "-")\<close> on the given
  standard input: the error of each call the adapter makes, and the bytes read from the
  standard output.\<close>

record proc =
  StdinPipe_err :: "error option"
  StdoutPipe_err :: "error option"
  Start_err :: "error option"
  Write_err :: "error option"
  ReadAll_out :: string
  ReadAll_err :: "error option"
  Wait_err :: "error option"

record xml_Name =
  Space :: string
  Local :: string

datatype xml_Token =
    StartElement xml_Name
  | EndElement xml_Name
  | CharData string
  | Comment string
  | ProcInst string string
  | Directive string

text \<open>What successive calls of \<open>Decoder.Token\<close> return: the tokens, then for ever
  \<open>io.EOF\<close> (\<open>None\<close>) or the error the decoder stopped at.\<close>

type_synonym xml_Decoder = "xml_Token list \<times> error option"

record zip_File =
  Name :: string
  Open :: "error + xml_Decoder"

record env =
  exec_pdftotext :: "string \<Rightarrow> proc"
  zip_NewReader :: "string \<Rightarrow> error + zip_File list"
  Windows1251 :: "char \<Rightarrow> rune"
  KOI8R :: "char \<Rightarrow> rune"
  ISO8859_5 :: "char \<Rightarrow> rune"
  MacintoshCyrillic :: "char \<Rightarrow> rune"
  CodePage866 :: "char \<Rightarrow> rune"
  unicode_ToLower :: "rune \<Rightarrow> rune"

text \<open>A charmap decoder read to the end: an ASCII byte is copied, any other byte is
  replaced by the UTF-8 form of its table entry; the error is always \<open>nil\<close>.\<close>

definition charmap_ReadAll :: "(char \<Rightarrow> rune) \<Rightarrow> string \<Rightarrow> string \<times> error option" where
  "charmap_ReadAll enc data =
     (concat (map (\<lambda>c. if (of_char c :: nat) < 0x80 then [c] else EncodeRune (enc c)) data),
      None)"

text \<open>\<open>strings.ToLower\<close>: bytewise on an ASCII string, rune by rune otherwise.\<close>

definition lower_byte :: "char \<Rightarrow> char" where
  "lower_byte c = (if CHR ''A'' \<le> c \<and> c \<le> CHR ''Z'' then char_of (of_char c + (32::nat)) else c)"

definition ToLower :: "env \<Rightarrow> string \<Rightarrow> string" where
  "ToLower E s =
     (if list_all (\<lambda>c. (of_char c :: nat) < 0x80) s then map lower_byte s
      else string_of_runes (map (unicode_ToLower E) (runes_of s)))"

text \<open>\<open>filepath.Ext\<close>: the suffix from the last dot of the last path element.\<close>

primrec Ext_scan :: "string \<Rightarrow> nat \<Rightarrow> string" where
  "Ext_scan path 0 = []"
| "Ext_scan path (Suc i) =
     (if path ! i = CHR ''/'' then []
      else if path ! i = CHR ''.'' then drop i path
      else Ext_scan path i)"

definition Ext :: "string \<Rightarrow> string" where
  "Ext path = Ext_scan path (length path)"

section \<open>The TXT extractor\<close>

definition normalize_newlines :: "string \<Rightarrow> string" where
  "normalize_newlines s = ReplaceAll (ReplaceAll s [CR, LF] [LF]) [CR] [LF]"

text \<open>The loops \<open>for i := 2; i+1 < len(data); i += 2\<close> that collect the 16-bit units.\<close>

fun units_LE :: "string \<Rightarrow> int list" where
  "units_LE (lo # hi # rest) = (of_char lo + of_char hi * 256) # units_LE rest"
| "units_LE _ = []"

fun units_BE :: "string \<Rightarrow> int list" where
  "units_BE (hi # lo # rest) = (of_char lo + of_char hi * 256) # units_BE rest"
| "units_BE _ = []"

fun score_step :: "int \<times> int \<times> int \<times> int \<Rightarrow> rune \<Rightarrow> int \<times> int \<times> int \<times> int" where
  "score_step (cyr, asciiPrint, repl, ctrl) r =
     (if r = 0xFFFD then (cyr, asciiPrint, repl + 1, ctrl)
      else if 0x0400 \<le> r \<and> r \<le> 0x052F then (cyr + 1, asciiPrint, repl, ctrl)
      else if 0x20 \<le> r \<and> r \<le> 0x7E then (cyr, asciiPrint + 1, repl, ctrl)
      else if r < 0x20 \<and> r \<noteq> 0x0A \<and> r \<noteq> 0x09 \<and> r \<noteq> 0x0D then (cyr, asciiPrint, repl, ctrl + 1)
      else (cyr, asciiPrint, repl, ctrl))"

definition scoreCyrillicText :: "string \<Rightarrow> int" where
  "scoreCyrillicText s =
     (if s = [] then - 1000000
      else (case foldl score_step (0, 0, 0, 0) (runes_of s) of
              (cyr, asciiPrint, repl, ctrl) \<Rightarrow> 3 * cyr + asciiPrint - 50 * repl - 5 * ctrl))"

text \<open>\<open>strings.ContainsRune\<close> at the rune U+FFFD: for this rune \<open>IndexRune\<close> ranges over \<open>s\<close>.\<close>

definition ContainsRuneError :: "string \<Rightarrow> bool" where
  "ContainsRuneError s \<longleftrightarrow> RuneError \<in> set (runes_of s)"

definition candidates :: "env \<Rightarrow> (string \<times> (char \<Rightarrow> rune)) list" where
  "candidates E =
     [(''windows-1251'', Windows1251 E), (''koi8-r'', KOI8R E), (''iso-8859-5'', ISO8859_5 E),
      (''mac-cyrillic'', MacintoshCyrillic E), (''cp866'', CodePage866 E)]"

text \<open>One round of the loop over the candidates, on \<open>(bestText, bestScore)\<close>.\<close>

definition best_step :: "string \<Rightarrow> string \<times> int \<Rightarrow> string \<times> (char \<Rightarrow> rune) \<Rightarrow> string \<times> int" where
  "best_step data best c =
     (case charmap_ReadAll (snd c) data of
        (decoded, Some err) \<Rightarrow> best
      | (decoded, None) \<Rightarrow>
          (let text = decoded; score = scoreCyrillicText text
           in if score > snd best then (text, score) else best))"

definition decodeBestCyrillic :: "env \<Rightarrow> string \<Rightarrow> string \<times> bool" where
  "decodeBestCyrillic E data =
     (let bestText = fst (foldl (best_step data) ([], - 2147483648) (candidates E))
      in if bestText = [] then ([], False)
         else if ContainsRuneError bestText then ([], False)
         else (bestText, True))"

definition extractTXT :: "env \<Rightarrow> string \<Rightarrow> result" where
  "extractTXT E data =
     (if length data \<ge> 2 \<and> data ! 0 = CHR 0xFF \<and> data ! 1 = CHR 0xFE
        then (normalize_newlines (string_of_runes (utf16_Decode (units_LE (drop 2 data)))), None)
      else if length data \<ge> 2 \<and> data ! 0 = CHR 0xFE \<and> data ! 1 = CHR 0xFF
        then (normalize_newlines (string_of_runes (utf16_Decode (units_BE (drop 2 data)))), None)
      else if utf8_Valid data then (normalize_newlines data, None)
      else (case decodeBestCyrillic E data of
              (decoded, True) \<Rightarrow> (normalize_newlines decoded, None)
            | (decoded, False) \<Rightarrow>
                (normalize_newlines (string_of_runes (map (\<lambda>by. of_char by) data)), None)))"

section \<open>The PDF adapter\<close>

text \<open>The adapter makes its calls one after the other; each error ends it.\<close>

definition extractPDF :: "env \<Rightarrow> string \<Rightarrow> result" where
  "extractPDF E data =
     (let cmd = exec_pdftotext E data in
      if StdinPipe_err cmd \<noteq> None then ([], StdinPipe_err cmd)
      else if StdoutPipe_err cmd \<noteq> None then ([], StdoutPipe_err cmd)
      else if Start_err cmd \<noteq> None then ([], Start_err cmd)
      else if Write_err cmd \<noteq> None then ([], Write_err cmd)
      else if ReadAll_err cmd \<noteq> None then ([], ReadAll_err cmd)
      else if Wait_err cmd \<noteq> None then ([], Wait_err cmd)
      else (ReadAll_out cmd, None))"

section \<open>The DOCX walker\<close>

text \<open>The inner loop of a \<open>t\<close> element: it reads tokens into \<open>txt\<close> up to the end
  tag of a \<open>t\<close> or the end of the input, and returns the text with the tokens left, or
  the error of the decoder.\<close>

fun read_t :: "error option \<Rightarrow> xml_Token list \<Rightarrow> string \<Rightarrow> error + (string \<times> xml_Token list)" where
  "read_t fin [] txt = (case fin of None \<Rightarrow> Inr (txt, []) | Some err2 \<Rightarrow> Inl err2)"
| "read_t fin (CharData char # toks) txt = read_t fin toks (txt @ char)"
| "read_t fin (EndElement end # toks) txt =
     (if Local end = ''t'' then Inr (txt, toks) else read_t fin toks txt)"
| "read_t fin (tok2 # toks) txt = read_t fin toks txt"

lemma read_t_length: "read_t fin toks acc = Inr (acc', toks') \<Longrightarrow> length toks' \<le> length toks"
  by (induction fin toks acc rule: read_t.induct) (auto split: option.splits if_splits)

text \<open>The outer loop, on the output buffer \<open>b\<close> and the stack of open elements.\<close>

function walk :: "error option \<Rightarrow> xml_Token list \<Rightarrow> string \<Rightarrow> (string \<times> string) list \<Rightarrow> result" where
  "walk fin [] b stack = (case fin of None \<Rightarrow> (b, None) | Some err \<Rightarrow> ([], Some err))"
| "walk fin (StartElement t # toks) b stack =
     (let stack = stack @ [(Space t, Local t)] in
      if Local t = ''br'' then walk fin toks (b @ [LF]) stack
      else if Local t = ''tab'' then walk fin toks (b @ [TAB]) stack
      else if Local t = ''t'' then
        (case read_t fin toks [] of
           Inl err2 \<Rightarrow> ([], Some err2)
         | Inr (txt, toks') \<Rightarrow> walk fin toks' (b @ txt) stack)
      else walk fin toks b stack)"
| "walk fin (EndElement t # toks) b stack =
     (let stack = (if length stack > 0 then butlast stack else stack) in
      if Local t = ''p'' then walk fin toks (b @ [LF]) stack
      else walk fin toks b stack)"
| "walk fin (CharData v # toks) b stack = walk fin toks b stack"
| "walk fin (Comment v # toks) b stack = walk fin toks b stack"
| "walk fin (ProcInst v w # toks) b stack = walk fin toks b stack"
| "walk fin (Directive v # toks) b stack = walk fin toks b stack"
  by pat_completeness auto
termination
  by (relation "measure (\<lambda>(fin, toks, b, stack). length toks)")
     (auto dest: read_t_length)

definition extractDOCX :: "env \<Rightarrow> string \<Rightarrow> result" where
  "extractDOCX E data =
     (case zip_NewReader E data of
        Inl err \<Rightarrow> ([], Some err)
      | Inr files \<Rightarrow>
          (case find (\<lambda>f. Name f = ''word/document.xml'') files of
             None \<Rightarrow> ([], Some (Error ''document.xml not found in docx''))
           | Some docFile \<Rightarrow>
               (case Open docFile of
                  Inl err \<Rightarrow> ([], Some err)
                | Inr dec \<Rightarrow> walk (snd dec) (fst dec) [] [])))"

section \<open>The RTF tokenizer\<close>

subsection \<open>Library calls of the tokenizer\<close>

definition isDigit :: "char \<Rightarrow> bool" where
  "isDigit c \<longleftrightarrow> CHR ''0'' \<le> c \<and> c \<le> CHR ''9''"

definition dec_value :: "string \<Rightarrow> int" where
  "dec_value ds = foldl (\<lambda>n c. 10 * n + (of_char c - 48)) 0 ds"

text \<open>\<open>strconv.Atoi\<close>: an optional sign and at least one decimal digit, and a value
  that fits the 64 bits of an \<open>int\<close>.\<close>

definition Atoi :: "string \<Rightarrow> int option" where
  "Atoi s =
     (let neg = (s \<noteq> [] \<and> hd s = CHR ''-'');
          ds = (if s \<noteq> [] \<and> (hd s = CHR ''+'' \<or> hd s = CHR ''-'') then tl s else s)
      in if ds = [] \<or> \<not> list_all isDigit ds then None
         else (let v = (if neg then - dec_value ds else dec_value ds)
               in if - 9223372036854775808 \<le> v \<and> v \<le> 9223372036854775807 then Some v
                  else None))"

definition fromHexChar :: "char \<Rightarrow> nat option" where
  "fromHexChar c =
     (if CHR ''0'' \<le> c \<and> c \<le> CHR ''9'' then Some (of_char c - 48)
      else if CHR ''a'' \<le> c \<and> c \<le> CHR ''f'' then Some (of_char c - 87)
      else if CHR ''A'' \<le> c \<and> c \<le> CHR ''F'' then Some (of_char c - 55)
      else None)"

text \<open>\<open>hex.Decode\<close> of two digits into one byte.\<close>

definition hex_Decode :: "string \<Rightarrow> char option" where
  "hex_Decode hh =
     (case (fromHexChar (hh ! 0), fromHexChar (hh ! 1)) of
        (Some a, Some b) \<Rightarrow> Some (char_of (a * 16 + b))
      | _ \<Rightarrow> None)"

subsection \<open>The parse state and one round of the loop\<close>

text \<open>The variables \<open>i\<close>, \<open>depth\<close>, \<open>skipUntilDepth\<close> and the builder \<open>b\<close>.\<close>

record rtf_state =
  rtf_i :: nat
  depth :: int
  skipUntilDepth :: int
  rtf_b :: string

text \<open>An index expression \<open>data[i]\<close> and a slice expression \<open>data[lo:hi]\<close> panic out
  of range: the value is \<open>None\<close> then, and so is the value of every function below
  that evaluates one. A condition \<open>i < len(data) && P(data[i])\<close> reads only in range.\<close>

definition idx :: "string \<Rightarrow> nat \<Rightarrow> char option" where
  "idx data i = (if i < length data then Some (data ! i) else None)"

definition slice :: "string \<Rightarrow> nat \<Rightarrow> nat \<Rightarrow> string option" where
  "slice data lo hi =
     (if lo \<le> hi \<and> hi \<le> length data then Some (take (hi - lo) (drop lo data)) else None)"

definition at_is :: "(char \<Rightarrow> bool) \<Rightarrow> string \<Rightarrow> nat \<Rightarrow> bool" where
  "at_is P data i \<longleftrightarrow> i < length data \<and> P (data ! i)"

definition isLetter :: "char \<Rightarrow> bool" where
  "isLetter c \<longleftrightarrow> (CHR ''a'' \<le> c \<and> c \<le> CHR ''z'') \<or> (CHR ''A'' \<le> c \<and> c \<le> CHR ''Z'')"

text \<open>The loops \<open>for i < len(data) && P(data[i]) { i++ }\<close>.\<close>

function scan :: "(char \<Rightarrow> bool) \<Rightarrow> string \<Rightarrow> nat \<Rightarrow> nat" where
  "scan P data i = (if at_is P data i then scan P data (Suc i) else i)"
  by pat_completeness auto
termination
  by (relation "measure (\<lambda>(P, data, i). length data - i)") (auto simp: at_is_def)

declare scan.simps [simp del]

lemma scan_ge: "i \<le> scan P data i"
proof (induction P data i rule: scan.induct)
  case (1 P data i)
  then show ?case by (subst scan.simps) auto
qed

lemma scan_le: "i \<le> length data \<Longrightarrow> scan P data i \<le> length data"
proof (induction P data i rule: scan.induct)
  case (1 P data i)
  then show ?case by (subst scan.simps) (auto simp: at_is_def)
qed

definition WriteByte :: "char \<Rightarrow> rtf_state \<Rightarrow> rtf_state" where
  "WriteByte c s = s\<lparr>rtf_b := rtf_b s @ [c]\<rparr>"

definition WriteRune :: "rune \<Rightarrow> rtf_state \<Rightarrow> rtf_state" where
  "WriteRune r s = s\<lparr>rtf_b := rtf_b s @ EncodeRune r\<rparr>"

text \<open>A control symbol; \<open>i\<close> is at the byte after the backslash, which is no letter.\<close>

definition control_symbol :: "string \<Rightarrow> rtf_state \<Rightarrow> rtf_state option" where
  "control_symbol data s0 =
     (case idx data (rtf_i s0) of None \<Rightarrow> None | Some symb \<Rightarrow>
      (let s = s0\<lparr>rtf_i := rtf_i s0 + 1\<rparr>
       in if symb = BSL \<or> symb = CHR ''{'' \<or> symb = CHR ''}'' then
            Some (if skipUntilDepth s < 0 then WriteByte symb s else s)
          else if symb = CHR ''~'' then
            Some (if skipUntilDepth s < 0 then WriteByte (CHR '' '') s else s)
          else if symb = CHR ''-'' then Some s
          else if symb = CHR ''_'' then
            Some (if skipUntilDepth s < 0 then WriteByte (CHR ''-'') s else s)
          else if symb = CHR ''*'' then
            Some (if skipUntilDepth s < 0 then s\<lparr>skipUntilDepth := depth s\<rparr> else s)
          else if symb = CHR 0x27 then
            (if rtf_i s + 1 < length data then
               (case slice data (rtf_i s) (rtf_i s + 2) of None \<Rightarrow> None | Some hh \<Rightarrow>
                (let s = s\<lparr>rtf_i := rtf_i s + 2\<rparr>
                 in case hex_Decode hh of
                      Some dst \<Rightarrow> Some (if skipUntilDepth s < 0 then WriteByte dst s else s)
                    | None \<Rightarrow> Some s))
             else Some s)
          else Some s))"

text \<open>The numeric argument of a control word; \<open>i\<close> is at its sign or first digit.\<close>

definition numeric_arg :: "string \<Rightarrow> string \<Rightarrow> rtf_state \<Rightarrow> rtf_state option" where
  "numeric_arg data word s0 =
     (case idx data (rtf_i s0) of None \<Rightarrow> None | Some c0 \<Rightarrow>
      (let neg = (c0 = CHR ''-'');
           numStart = (if neg then rtf_i s0 + 1 else rtf_i s0);
           i = scan isDigit data numStart
       in case slice data numStart i of None \<Rightarrow> None | Some numStr \<Rightarrow>
          (let s = s0\<lparr>rtf_i := i\<rparr>
           in if word = ''u'' then
                (case Atoi numStr of
                   Some v \<Rightarrow>
                     (let v = (if neg then - v else v);
                          s = (if skipUntilDepth s < 0 then WriteRune (int32 v) s else s)
                      in if at_is (\<lambda>c. c = CHR ''?'') data (rtf_i s)
                         then Some (s\<lparr>rtf_i := rtf_i s + 1\<rparr>) else Some s)
                 | None \<Rightarrow> Some s)
              else Some s)))"

text \<open>The control words with an effect of their own.\<close>

definition word_effect :: "string \<Rightarrow> rtf_state \<Rightarrow> rtf_state" where
  "word_effect word s =
     (if word = ''par'' \<or> word = ''line'' then
        (if skipUntilDepth s < 0 then WriteByte LF s else s)
      else if word = ''tab'' then
        (if skipUntilDepth s < 0 then WriteByte TAB s else s)
      else if word = ''fonttbl'' \<or> word = ''colortbl'' \<or> word = ''stylesheet''
              \<or> word = ''info'' \<or> word = ''pict'' \<or> word = ''header'' \<or> word = ''footer'' then
        (if skipUntilDepth s < 0 then s\<lparr>skipUntilDepth := depth s\<rparr> else s)
      else s)"

text \<open>A control word; \<open>i\<close> is at its first letter.\<close>

definition control_word :: "string \<Rightarrow> rtf_state \<Rightarrow> rtf_state option" where
  "control_word data s0 =
     (let start = rtf_i s0;
          i = scan isLetter data start
      in case slice data start i of None \<Rightarrow> None | Some word \<Rightarrow>
         (case (if at_is (\<lambda>c. c = CHR ''-'' \<or> isDigit c) data i
                then numeric_arg data word (s0\<lparr>rtf_i := i\<rparr>)
                else Some (s0\<lparr>rtf_i := i\<rparr>)) of
            None \<Rightarrow> None
          | Some s \<Rightarrow>
              (let s = word_effect word s
               in if at_is (\<lambda>c. c = CHR '' '') data (rtf_i s)
                  then Some (s\<lparr>rtf_i := rtf_i s + 1\<rparr>) else Some s)))"

text \<open>The body of \<open>for i < len(data)\<close>.\<close>

definition rtf_step :: "string \<Rightarrow> rtf_state \<Rightarrow> rtf_state option" where
  "rtf_step data s0 =
     (case idx data (rtf_i s0) of None \<Rightarrow> None | Some c \<Rightarrow>
      if c = CHR ''{'' then Some (s0\<lparr>depth := depth s0 + 1, rtf_i := rtf_i s0 + 1\<rparr>)
      else if c = CHR ''}'' then
        (let s = (if skipUntilDepth s0 \<ge> 0 \<and> depth s0 = skipUntilDepth s0
                  then s0\<lparr>skipUntilDepth := - 1\<rparr> else s0);
             s = (if depth s > 0 then s\<lparr>depth := depth s - 1\<rparr> else s)
         in Some (s\<lparr>rtf_i := rtf_i s + 1\<rparr>))
      else if c = BSL then
        (let s = s0\<lparr>rtf_i := rtf_i s0 + 1\<rparr>
         in if rtf_i s \<ge> length data then Some s
            else (case idx data (rtf_i s) of None \<Rightarrow> None | Some c1 \<Rightarrow>
                  if \<not> isLetter c1 then control_symbol data s
                  else control_word data s))
      else if c = CR \<or> c = LF then Some (s0\<lparr>rtf_i := rtf_i s0 + 1\<rparr>)
      else Some ((if skipUntilDepth s0 < 0 then WriteByte c s0 else s0)\<lparr>rtf_i := rtf_i s0 + 1\<rparr>))"

lemma WriteByte_sel [simp]:
  "rtf_i (WriteByte c s) = rtf_i s" "depth (WriteByte c s) = depth s"
  "skipUntilDepth (WriteByte c s) = skipUntilDepth s" "rtf_b (WriteByte c s) = rtf_b s @ [c]"
  by (simp_all add: WriteByte_def)

lemma WriteRune_sel [simp]:
  "rtf_i (WriteRune r s) = rtf_i s" "depth (WriteRune r s) = depth s"
  "skipUntilDepth (WriteRune r s) = skipUntilDepth s"
  "rtf_b (WriteRune r s) = rtf_b s @ EncodeRune r"
  by (simp_all add: WriteRune_def)

lemma word_effect_i [simp]: "rtf_i (word_effect word s) = rtf_i s"
  by (simp add: word_effect_def)

lemma control_symbol_advance: "control_symbol data s = Some s' \<Longrightarrow> rtf_i s < rtf_i s'"
  by (auto simp: control_symbol_def Let_def split: option.splits if_splits)

lemma numeric_arg_advance:
  assumes "numeric_arg data word s = Some s'"
  shows "rtf_i s \<le> rtf_i s'"
proof -
  have "rtf_i s \<le> scan isDigit data (rtf_i s)"
    and "rtf_i s \<le> scan isDigit data (rtf_i s + 1)"
    using scan_ge [of "rtf_i s" isDigit data] scan_ge [of "rtf_i s + 1" isDigit data]
    by simp_all
  with assms show ?thesis
    by (auto simp: numeric_arg_def Let_def split: option.splits if_splits)
qed

lemma control_word_advance:
  assumes "control_word data s = Some s'"
    and "at_is isLetter data (rtf_i s)"
  shows "rtf_i s < rtf_i s'"
proof -
  have "Suc (rtf_i s) \<le> scan isLetter data (Suc (rtf_i s))"
    by (rule scan_ge)
  with assms(2) have 1: "rtf_i s < scan isLetter data (rtf_i s)"
    by (subst scan.simps) simp
  have 2: "scan isLetter data (rtf_i s) \<le> rtf_i t"
    if "numeric_arg data word (s\<lparr>rtf_i := scan isLetter data (rtf_i s)\<rparr>) = Some t" for word t
    using numeric_arg_advance [OF that] by simp
  from assms(1) 1 2 show ?thesis
    by (fastforce simp: control_word_def Let_def split: option.splits if_splits)
qed

lemma rtf_step_advance:
  assumes "rtf_step data s = Some s'"
  shows "rtf_i s < rtf_i s'"
proof -
  let ?s1 = "s\<lparr>rtf_i := rtf_i s + 1\<rparr>"
  have symbol: "control_symbol data ?s1 = Some s' \<Longrightarrow> rtf_i s < rtf_i s'"
    using control_symbol_advance [of data ?s1 s'] by simp
  have word: "control_word data ?s1 = Some s' \<Longrightarrow> at_is isLetter data (rtf_i s + 1)
              \<Longrightarrow> rtf_i s < rtf_i s'"
    using control_word_advance [of data ?s1 s'] by simp
  from assms symbol word show ?thesis
    by (auto simp: rtf_step_def Let_def idx_def at_is_def split: option.splits if_splits)
qed

text \<open>The loop: \<open>None\<close> when a round panics.\<close>

function rtf_loop :: "string \<Rightarrow> rtf_state \<Rightarrow> rtf_state option" where
  "rtf_loop data s =
     (if rtf_i s < length data then
        (case rtf_step data s of None \<Rightarrow> None | Some s' \<Rightarrow> rtf_loop data s')
      else Some s)"
  by pat_completeness auto
termination
proof (relation "measure (\<lambda>(data, s). length data - rtf_i s)")
  fix data :: string and s s' :: rtf_state
  assume "rtf_i s < length data" and "rtf_step data s = Some s'"
  with rtf_step_advance [of data s s']
  show "((data, s'), (data, s)) \<in> measure (\<lambda>(data, s). length data - rtf_i s)"
    by simp
qed simp

declare rtf_loop.simps [simp del]

subsection \<open>The pass after the loop\<close>

text \<open>The three regular expressions of the pass, each with its \<open>ReplaceAllString\<close>.
  \<open>collapse P r\<close> replaces every maximal run of two or more bytes of the class \<open>P\<close> by
  \<open>r\<close>: the expressions \<open>\n{2,}\<close> and \<open>[ \t]{2,}\<close>.\<close>

lemma length_dropWhile_less: "length (dropWhile P cs) < Suc (Suc (length cs))"
  using length_dropWhile_le [of P cs] by simp

function collapse :: "(char \<Rightarrow> bool) \<Rightarrow> string \<Rightarrow> string \<Rightarrow> string" where
  "collapse P r [] = []"
| "collapse P r [c] = [c]"
| "collapse P r (c # d # cs) =
     (if P c \<and> P d then r @ collapse P r (dropWhile P cs)
      else c # collapse P r (d # cs))"
  by pat_completeness auto
termination
  by (relation "measure (\<lambda>(P, r, s). length s)") (auto simp: length_dropWhile_less)

definition reNewlines :: "string \<Rightarrow> string" where
  "reNewlines out = collapse (\<lambda>c. c = LF) [LF] out"

definition reSpaces :: "string \<Rightarrow> string" where
  "reSpaces out = collapse (\<lambda>c. c = CHR '' '' \<or> c = TAB) '' '' out"

text \<open>The class \<open>\s\<close> of Go's regular expressions, and the class \<open>[,.:;!?]\<close>.\<close>

definition isSpace :: "char \<Rightarrow> bool" where
  "isSpace c \<longleftrightarrow> c = TAB \<or> c = LF \<or> c = CHR 0x0C \<or> c = CR \<or> c = CHR '' ''"

definition isPunct :: "char \<Rightarrow> bool" where
  "isPunct c \<longleftrightarrow> c = CHR '','' \<or> c = CHR ''.'' \<or> c = CHR '':'' \<or> c = CHR '';''
                 \<or> c = CHR ''!'' \<or> c = CHR ''?''"

text \<open>\<open>\s+([,.:;!?])\<close> replaced by \<open>$1\<close>: a run of white space in front of a
  punctuation mark is dropped.\<close>

function reSpaceBeforePunct :: "string \<Rightarrow> string" where
  "reSpaceBeforePunct [] = []"
| "reSpaceBeforePunct (c # cs) =
     (if isSpace c \<and> dropWhile isSpace cs \<noteq> [] \<and> isPunct (hd (dropWhile isSpace cs))
      then hd (dropWhile isSpace cs) # reSpaceBeforePunct (tl (dropWhile isSpace cs))
      else c # reSpaceBeforePunct cs)"
  by pat_completeness auto
termination
proof (relation "measure length")
  fix c :: char and cs :: string
  show "(tl (dropWhile isSpace cs), c # cs) \<in> measure length"
    using length_dropWhile_le [of isSpace cs] by simp
qed simp_all

definition rtf_normalize :: "string \<Rightarrow> string" where
  "rtf_normalize out =
     reSpaceBeforePunct (reSpaces (reNewlines (ReplaceAll (ReplaceAll out [CR, LF] [LF]) [CR] [LF])))"

definition rtf_init :: rtf_state where
  "rtf_init = \<lparr>rtf_i = 0, depth = 0, skipUntilDepth = - 1, rtf_b = []\<rparr>"

text \<open>A panic does not return; the model shows it as an error of the result.\<close>

definition extractRTF :: "string \<Rightarrow> result" where
  "extractRTF data =
     (case rtf_loop data rtf_init of
        None \<Rightarrow> ([], Some (Error ''panic: runtime error: index out of range''))
      | Some s \<Rightarrow>
     (let out = rtf_normalize (rtf_b s)
      in if \<not> utf8_Valid out \<and> length out \<ge> 2 \<and> out ! 0 = CHR 0xFF \<and> out ! 1 = CHR 0xFE
           then (string_of_runes (utf16_Decode (units_LE (drop 2 out))), None)
         else if \<not> utf8_Valid out \<and> length out \<ge> 2 \<and> out ! 0 = CHR 0xFE \<and> out ! 1 = CHR 0xFF
           then (string_of_runes (utf16_Decode (units_BE (drop 2 out))), None)
         else (out, None)))"

section \<open>The dispatcher\<close>

definition ExtractText :: "env \<Rightarrow> string \<Rightarrow> string \<Rightarrow> result" where
  "ExtractText E filename data =
     (let ext = ToLower E (Ext filename)
      in if ext = ''.pdf'' then extractPDF E data
         else if ext = ''.docx'' then extractDOCX E data
         else if ext = ''.rtf'' then extractRTF data
         else if ext = ''.txt'' \<or> ext = [] then extractTXT E data
         else if HasPrefix data ''%PDF'' then extractPDF E data
         else if HasPrefix data ''PK'' then extractDOCX E data
         else if HasPrefix data (''{'' @ [BSL] @ ''rtf'') then extractRTF data
         else ([], Some (Error (''unsupported file type: '' @ ext))))"

section \<open>Definitions used to state the properties\<close>

text \<open>An environment for the closed examples. Its tables are stand-ins: the theorems
  hold for every environment, and so for the tables of the library.\<close>

definition demo_env :: env where
  "demo_env =
     \<lparr>exec_pdftotext = (\<lambda>d. \<lparr>StdinPipe_err = None, StdoutPipe_err = None, Start_err = None,
                              Write_err = None, ReadAll_out = ''text of the PDF'',
                              ReadAll_err = None, Wait_err = None\<rparr>),
      zip_NewReader = (\<lambda>d. Inr [\<lparr>Name = ''word/document.xml'',
         Open = Inr ([StartElement \<lparr>Space = ''w'', Local = ''p''\<rparr>,
                      StartElement \<lparr>Space = ''w'', Local = ''t''\<rparr>,
                      CharData ''A'',
                      EndElement \<lparr>Space = ''w'', Local = ''t''\<rparr>],
                     Some (Error ''XML syntax error: unexpected EOF''))\<rparr>]),
      Windows1251 = (\<lambda>c. of_char c + 0x350),
      KOI8R = (\<lambda>c. 0x2500),
      ISO8859_5 = (\<lambda>c. of_char c + 0x360),
      MacintoshCyrillic = (\<lambda>c. 0x2500),
      CodePage866 = (\<lambda>c. 0x2500),
      unicode_ToLower = (\<lambda>r. r)\<rparr>"

text \<open>Line-ending normalization as the specification words it: every \<open>\r\n\<close> and
  every remaining \<open>\r\<close> becomes \<open>\n\<close>, every other byte stays.\<close>

fun crlf_to_lf :: "string \<Rightarrow> string" where
  "crlf_to_lf [] = []"
| "crlf_to_lf [c] = [if c = CR then LF else c]"
| "crlf_to_lf (c # d # cs) =
     (if c = CR \<and> d = LF then LF # crlf_to_lf cs
      else if c = CR then LF # crlf_to_lf (d # cs)
      else c # crlf_to_lf (d # cs))"

text \<open>The runes that UTF-8 can encode: the Unicode scalar values.\<close>

definition ValidRune :: "rune \<Rightarrow> bool" where
  "ValidRune r \<longleftrightarrow> 0 \<le> r \<and> r \<le> 0x10FFFF \<and> \<not> (0xD800 \<le> r \<and> r \<le> 0xDFFF)"

text \<open>The states a run of the tokenizer on \<open>data\<close> passes through, and the state
  after \<open>n\<close> rounds of its loop.\<close>

inductive reach :: "string \<Rightarrow> rtf_state \<Rightarrow> bool" for data :: string where
  reach_init: "reach data rtf_init"
| reach_step: "reach data s \<Longrightarrow> rtf_i s < length data \<Longrightarrow> rtf_step data s = Some s'
               \<Longrightarrow> reach data s'"

fun rtf_run :: "nat \<Rightarrow> string \<Rightarrow> rtf_state \<Rightarrow> rtf_state option" where
  "rtf_run 0 data s = Some s"
| "rtf_run (Suc n) data s =
     (if rtf_i s < length data then
        (case rtf_step data s of None \<Rightarrow> None | Some s' \<Rightarrow> rtf_run n data s')
      else None)"

text \<open>The score of a decoded text as the specification words it, on the code points
  of the text: the Cyrillic range is \<open>0400\<close> to \<open>052F\<close>, printable ASCII is \<open>20\<close> to
  \<open>7E\<close>, and the other control characters are those below \<open>20\<close> apart from tab,
  line feed and carriage return.\<close>

definition isCyrillic :: "rune \<Rightarrow> bool" where
  "isCyrillic r \<longleftrightarrow> 0x0400 \<le> r \<and> r \<le> 0x052F"

definition isPrintableASCII :: "rune \<Rightarrow> bool" where
  "isPrintableASCII r \<longleftrightarrow> 0x20 \<le> r \<and> r \<le> 0x7E"

definition isOtherControl :: "rune \<Rightarrow> bool" where
  "isOtherControl r \<longleftrightarrow> r < 0x20 \<and> r \<noteq> 0x0A \<and> r \<noteq> 0x09 \<and> r \<noteq> 0x0D"

definition score_spec :: "rune list \<Rightarrow> int" where
  "score_spec rs =
     3 * int (length (filter isCyrillic rs)) + int (length (filter isPrintableASCII rs))
     - 50 * int (length (filter (\<lambda>r. r = 0xFFFD) rs))
     - 5 * int (length (filter isOtherControl rs))"

text \<open>The scored fallback as the specification words it: the five trial decodings,
  the highest-scoring one (the first of equals), replaced by the byte-to-code-point
  mapping when it holds U+FFFD; line endings normalized.\<close>

definition candidate_texts :: "env \<Rightarrow> string \<Rightarrow> string list" where
  "candidate_texts E data = map (\<lambda>c. fst (charmap_ReadAll (snd c) data)) (candidates E)"

fun best_by :: "(string \<Rightarrow> int) \<Rightarrow> string list \<Rightarrow> string" where
  "best_by f [] = []"
| "best_by f [t] = t"
| "best_by f (t # ts) = (if f (best_by f ts) > f t then best_by f ts else t)"

definition spec_score :: "string \<Rightarrow> int" where
  "spec_score t = score_spec (runes_of t)"

definition latin1 :: "string \<Rightarrow> string" where
  "latin1 data = string_of_runes (map (\<lambda>by. of_char by) data)"

definition scored_fallback_spec :: "env \<Rightarrow> string \<Rightarrow> string" where
  "scored_fallback_spec E data =
     (let best = best_by spec_score (candidate_texts E data)
      in crlf_to_lf (if RuneError \<in> set (runes_of best) then latin1 data else best))"







text \<open>What is left of the input behind a \<open>\uN\<close> escape that \<open>rest\<close> follows: the
  fallback byte \<open>?\<close> and then the space that ends a control word are passed over.\<close>

definition after_escape :: "string \<Rightarrow> string" where
  "after_escape rest =
     (let r1 = (if rest \<noteq> [] \<and> hd rest = CHR ''?'' then tl rest else rest)
      in if r1 \<noteq> [] \<and> hd r1 = CHR '' '' then tl r1 else r1)"

text \<open>The test of the last step of the RTF extractor: text that is not valid UTF-8 and
  starts with a UTF-16 byte-order mark is decoded anew. And the bytes that the pass after
  the loop neither drops nor merges: no white space and none of \<open>, . : ; ! ?\<close>.\<close>

definition utf16_marked :: "string \<Rightarrow> bool" where
  "utf16_marked out \<longleftrightarrow>
     \<not> utf8_Valid out \<and> length out \<ge> 2
     \<and> ((out ! 0 = CHR 0xFF \<and> out ! 1 = CHR 0xFE) \<or> (out ! 0 = CHR 0xFE \<and> out ! 1 = CHR 0xFF))"

definition neutral :: "char \<Rightarrow> bool" where
  "neutral c \<longleftrightarrow> \<not> isSpace c \<and> \<not> isPunct c"

text \<open>\<open>adj R s\<close>: two neighbours in \<open>s\<close> are related by \<open>R\<close>.\<close>

fun adj :: "(char \<Rightarrow> char \<Rightarrow> bool) \<Rightarrow> string \<Rightarrow> bool" where
  "adj R (a # b # cs) = (R a b \<or> adj R (b # cs))"
| "adj R _ = False"

section \<open>The TXT extractor: properties\<close>

lemma normalize_newlines_eq: "normalize_newlines s = crlf_to_lf s"
  by (induction s rule: crlf_to_lf.induct)
     (auto simp: normalize_newlines_def ReplaceAll_def HasPrefix_def)

text \<open>
  Claim C9. For every input byte sequence the TXT extractor returns a result and a
  \<open>nil\<close> error: each of its five returns, after the two byte-order marks, the UTF-8
  test, the scored candidate and the byte-to-code-point mapping, carries no error.
\<close>

theorem extractTXT_never_fails: "snd (extractTXT E data) = None"
  by (simp add: extractTXT_def split: prod.splits bool.splits)

text \<open>
  Claim C5. An input that is valid UTF-8 and does not begin with a UTF-16 byte-order
  mark is returned with every \<open>\r\n\<close> and every remaining \<open>\r\<close> replaced by \<open>\n\<close>
  and nothing else changed, and without an error.
\<close>

theorem extractTXT_utf8:
  assumes "utf8_Valid data"
    and "\<not> HasPrefix data [CHR 0xFF, CHR 0xFE]" and "\<not> HasPrefix data [CHR 0xFE, CHR 0xFF]"
  shows "extractTXT E data = (crlf_to_lf data, None)"
proof -
  have a: "(length data \<ge> 2 \<and> data ! 0 = CHR 0xFF \<and> data ! 1 = CHR 0xFE) = False"
    using assms(2) by (cases data; cases "tl data") (auto simp: HasPrefix_def)
  have b: "(length data \<ge> 2 \<and> data ! 0 = CHR 0xFE \<and> data ! 1 = CHR 0xFF) = False"
    using assms(3) by (cases data; cases "tl data") (auto simp: HasPrefix_def)
  show ?thesis
    by (simp only: extractTXT_def a b assms(1) if_False if_True normalize_newlines_eq)
qed

theorem extractTXT_utf8_witness:
  "utf8_Valid (''a'' @ [CR, LF] @ ''b'' @ [CR] @ ''c'')
   \<and> extractTXT demo_env (''a'' @ [CR, LF] @ ''b'' @ [CR] @ ''c'')
       = (''a'' @ [LF] @ ''b'' @ [LF] @ ''c'', None)"
proof -
  have v: "utf8_Valid (''a'' @ [CR, LF] @ ''b'' @ [CR] @ ''c'')"
    by code_simp
  have 1: "\<not> HasPrefix (''a'' @ [CR, LF] @ ''b'' @ [CR] @ ''c'') [CHR 0xFF, CHR 0xFE]"
    by (simp add: HasPrefix_def)
  have 2: "\<not> HasPrefix (''a'' @ [CR, LF] @ ''b'' @ [CR] @ ''c'') [CHR 0xFE, CHR 0xFF]"
    by (simp add: HasPrefix_def)
  show ?thesis
    using v extractTXT_utf8 [OF v 1 2, of demo_env] by simp
qed

section \<open>The dispatcher: properties\<close>

text \<open>
  Claim C3, as stated: a filename without extension whose bytes match no signature
  fails with the unsupported-format error. It does not: the empty extension is a case
  of its own and goes to the TXT extractor.
\<close>

theorem ExtractText_no_extension_counterexample:
  "Ext ''README'' = []
   \<and> \<not> HasPrefix ''hello'' ''%PDF'' \<and> \<not> HasPrefix ''hello'' ''PK''
   \<and> \<not> HasPrefix ''hello'' (''{'' @ [BSL] @ ''rtf'')
   \<and> ExtractText demo_env ''README'' ''hello'' = (''hello'', None)"
  by code_simp

text \<open>
  Claim C3, amended. When the lower-cased extension is none of \<open>.pdf\<close>, \<open>.docx\<close>,
  \<open>.rtf\<close>, \<open>.txt\<close> and not empty, the leading bytes select the extractor
  (\<open>%PDF\<close>, then \<open>PK\<close>, then \<open>{\rtf\<close>), and when no signature matches the result
  is the error \<open>unsupported file type:\<close> followed by that extension. A filename without
  extension is handed to the TXT extractor and yields no error.
\<close>

theorem ExtractText_dispatch:
  "(ToLower E (Ext filename) \<notin> {''.pdf'', ''.docx'', ''.rtf'', ''.txt'', []} \<longrightarrow>
      ExtractText E filename data =
        (if HasPrefix data ''%PDF'' then extractPDF E data
         else if HasPrefix data ''PK'' then extractDOCX E data
         else if HasPrefix data (''{'' @ [BSL] @ ''rtf'') then extractRTF data
         else ([], Some (Error (''unsupported file type: '' @ ToLower E (Ext filename))))))
   \<and> (ToLower E (Ext filename) = [] \<longrightarrow>
      ExtractText E filename data = extractTXT E data \<and> snd (ExtractText E filename data) = None)"
  by (simp add: ExtractText_def Let_def extractTXT_def split: prod.splits bool.splits)

theorem ExtractText_dispatch_witness:
  "ToLower demo_env (Ext ''x.unknown'') \<notin> {''.pdf'', ''.docx'', ''.rtf'', ''.txt'', []}
   \<and> ExtractText demo_env ''x.unknown'' ''%PDF-1.4'' = extractPDF demo_env ''%PDF-1.4''
   \<and> ExtractText demo_env ''x.unknown'' ''hello'' = ([], Some (Error ''unsupported file type: .unknown''))
   \<and> ToLower demo_env (Ext ''README'') = []
   \<and> ExtractText demo_env ''README'' ''hello'' = extractTXT demo_env ''hello''"
proof -
  have e: "ToLower demo_env (Ext ''x.unknown'') = ''.unknown''" by code_simp
  have n: "ToLower demo_env (Ext ''README'') = []" by code_simp
  have p: "HasPrefix ''%PDF-1.4'' ''%PDF''" by (simp add: HasPrefix_def)
  have q: "\<not> HasPrefix ''hello'' ''%PDF''" "\<not> HasPrefix ''hello'' ''PK''"
     "\<not> HasPrefix ''hello'' (''{'' @ [BSL] @ ''rtf'')" by (simp_all add: HasPrefix_def)
  show ?thesis
    using ExtractText_dispatch [of demo_env "''x.unknown''" "''%PDF-1.4''"]
      ExtractText_dispatch [of demo_env "''x.unknown''" "''hello''"]
      ExtractText_dispatch [of demo_env "''README''" "''hello''"]
    by (simp add: e n p q HasPrefix_def)
qed

section \<open>The DOCX walker: properties\<close>

lemma read_t_Inl: "read_t fin toks acc = Inl err2 \<Longrightarrow> fin = Some err2"
  by (induction fin toks acc rule: read_t.induct) (auto split: option.splits if_splits)

lemma walk_error: "walk (Some err) toks b stack = ([], Some err)"
proof (induction "Some err" toks b stack rule: walk.induct)
  case (2 t toks b stack)
  show ?case
  proof (cases "read_t (Some err) toks []")
    case (Inl err2)
    with read_t_Inl [OF Inl] 2(1,2,4) show ?thesis by (simp add: Let_def)
  next
    case (Inr r)
    with 2 show ?thesis by (cases r) (simp add: Let_def)
  qed
qed (simp_all add: Let_def)

text \<open>
  Claim C7. When the decoder of \<open>word/document.xml\<close> stops at an error, after
  whatever tokens, the walker returns that error with the empty string: the text
  gathered so far is dropped.
\<close>

theorem extractDOCX_malformed:
  assumes "zip_NewReader E data = Inr files"
    and "find (\<lambda>f. Name f = ''word/document.xml'') files = Some docFile"
    and "Open docFile = Inr (toks, Some err)"
  shows "extractDOCX E data = ([], Some err)"
  using assms by (simp add: extractDOCX_def walk_error)

theorem extractDOCX_malformed_witness:
  "extractDOCX demo_env ''PK'' = ([], Some (Error ''XML syntax error: unexpected EOF''))"
proof -
  let ?toks = "[StartElement \<lparr>Space = ''w'', Local = ''p''\<rparr>,
                      StartElement \<lparr>Space = ''w'', Local = ''t''\<rparr>,
                      CharData ''A'',
                      EndElement \<lparr>Space = ''w'', Local = ''t''\<rparr>]"
  let ?f = "\<lparr>Name = ''word/document.xml'',
         Open = Inr (?toks, Some (Error ''XML syntax error: unexpected EOF''))\<rparr>"
  have 1: "zip_NewReader demo_env ''PK'' = Inr [?f]" by (simp add: demo_env_def)
  have 2: "find (\<lambda>f. Name f = ''word/document.xml'') [?f] = Some ?f" by simp
  have 3: "Open ?f = Inr (?toks, Some (Error ''XML syntax error: unexpected EOF''))" by simp
  show ?thesis by (rule extractDOCX_malformed [OF 1 2 3])
qed

section \<open>The RTF tokenizer: properties\<close>

subsection \<open>No round of the loop panics\<close>

lemma control_symbol_ok: "rtf_i s < length data \<Longrightarrow> control_symbol data s \<noteq> None"
  by (auto simp: control_symbol_def idx_def slice_def Let_def split: option.splits)

lemma numeric_arg_ok:
  assumes "rtf_i s < length data"
  shows "numeric_arg data word s \<noteq> None"
proof -
  have "rtf_i s \<le> scan isDigit data (rtf_i s)" "rtf_i s + 1 \<le> scan isDigit data (rtf_i s + 1)"
    by (rule scan_ge)+
  moreover have "scan isDigit data (rtf_i s) \<le> length data"
    "scan isDigit data (rtf_i s + 1) \<le> length data"
    using assms by (auto intro: scan_le)
  ultimately show ?thesis
    using assms
    by (auto simp: numeric_arg_def idx_def slice_def Let_def split: option.splits)
qed

lemma control_word_ok:
  assumes "rtf_i s \<le> length data"
  shows "control_word data s \<noteq> None"
proof -
  have 1: "rtf_i s \<le> scan isLetter data (rtf_i s)" by (rule scan_ge)
  have 2: "scan isLetter data (rtf_i s) \<le> length data" using assms by (rule scan_le)
  have 3: "at_is (\<lambda>c. c = CHR ''-'' \<or> isDigit c) data (scan isLetter data (rtf_i s)) \<Longrightarrow>
     numeric_arg data (take (scan isLetter data (rtf_i s) - rtf_i s) (drop (rtf_i s) data))
       (s\<lparr>rtf_i := scan isLetter data (rtf_i s)\<rparr>) \<noteq> None"
    using numeric_arg_ok [of "s\<lparr>rtf_i := scan isLetter data (rtf_i s)\<rparr>" data]
    by (simp add: at_is_def)
  show ?thesis
    using 1 2 3
    by (auto simp: control_word_def slice_def Let_def split: option.splits)
qed

lemma rtf_step_ok:
  assumes "rtf_i s < length data"
  shows "rtf_step data s \<noteq> None"
  using assms control_symbol_ok [of "s\<lparr>rtf_i := rtf_i s + 1\<rparr>" data]
    control_word_ok [of "s\<lparr>rtf_i := rtf_i s + 1\<rparr>" data]
  by (auto simp: rtf_step_def idx_def Let_def split: option.splits)

lemma rtf_loop_ok: "rtf_loop data s \<noteq> None"
proof (induction data s rule: rtf_loop.induct)
  case (1 data s)
  show ?case
  proof (cases "rtf_i s < length data")
    case True
    with rtf_step_ok [OF True] obtain s' where s': "rtf_step data s = Some s'" by auto
    with 1 [OF True s'] True show ?thesis by (subst rtf_loop.simps) simp
  next
    case False
    then show ?thesis by (subst rtf_loop.simps) simp
  qed
qed

text \<open>
  Claim C10. For every input the RTF extractor returns a text and a \<open>nil\<close> error:
  the loop ends (each round advances \<open>i\<close>, which is the termination proof of
  \<open>rtf_loop\<close>), no index or slice expression is evaluated out of range, whatever
  escape the input breaks off in, and every return carries no error.
\<close>

theorem extractRTF_total: "\<exists>out. extractRTF data = (out, None)"
proof -
  from rtf_loop_ok [of data rtf_init] obtain s where "rtf_loop data rtf_init = Some s" by auto
  then show ?thesis by (simp add: extractRTF_def Let_def)
qed

subsection \<open>The skip marker\<close>

lemma reach_run: "reach data s \<Longrightarrow> rtf_run n data s = Some s' \<Longrightarrow> reach data s'"
proof (induction n arbitrary: s)
  case 0
  then show ?case by simp
next
  case (Suc n)
  from Suc.prems(2) obtain t where i: "rtf_i s < length data" and t: "rtf_step data s = Some t"
    and r: "rtf_run n data t = Some s'"
    by (auto split: if_splits option.splits)
  from Suc.prems(1) i t have "reach data t" by (rule reach_step)
  then show ?case using r by (rule Suc.IH)
qed

text \<open>Reading a known prefix of the input.\<close>

lemma scan_prefix:
  "drop i data = xs @ rest \<Longrightarrow> list_all P xs \<Longrightarrow> rest = [] \<or> \<not> P (hd rest)
   \<Longrightarrow> scan P data i = i + length xs"
proof (induction xs arbitrary: i)
  case Nil
  then have "\<not> at_is P data i"
    by (auto simp: at_is_def hd_drop_conv_nth)
  then show ?case by (subst scan.simps) simp
next
  case (Cons x xs)
  from Cons.prems(1) have i: "i < length data"
    by (cases "i < length data") auto
  with Cons.prems(1) have x: "data ! i = x" and d: "drop (Suc i) data = xs @ rest"
    by (simp_all add: Cons_nth_drop_Suc [symmetric])
  from Cons.prems(2) x i have "at_is P data i" by (simp add: at_is_def)
  moreover from Cons.IH [OF d] Cons.prems have "scan P data (Suc i) = Suc i + length xs" by simp
  ultimately show ?case by (subst scan.simps) simp
qed

lemma drop_ConsD:
  assumes "drop i data = x # xs"
  shows "i < length data" and "data ! i = x" and "drop (Suc i) data = xs"
proof -
  from assms show i: "i < length data" by (cases "i < length data") auto
  with assms show "data ! i = x" "drop (Suc i) data = xs"
    by (simp_all add: Cons_nth_drop_Suc [symmetric])
qed

lemma idx_drop: "drop i data = x # xs \<Longrightarrow> idx data i = Some x"
  using drop_ConsD(1,2) [of i data x xs] by (simp add: idx_def)

lemma at_is_drop: "drop i data = rest \<Longrightarrow> at_is P data i = (rest \<noteq> [] \<and> P (hd rest))"
  by (auto simp: at_is_def hd_drop_conv_nth)

lemma slice_drop:
  assumes "drop lo data = xs @ rest" and "xs \<noteq> []"
  shows "slice data lo (lo + length xs) = Some xs"
proof -
  have "length data - lo = length xs + length rest"
    using arg_cong [OF assms(1), of length] by simp
  moreover have "0 < length xs" using assms(2) by simp
  ultimately have "lo + length xs \<le> length data" by linarith
  then show ?thesis by (simp add: slice_def assms)
qed

lemma drop_drop_app:
  assumes "drop i data = xs @ rest"
  shows "drop (i + length xs) data = rest"
proof -
  have "drop (i + length xs) data = drop (length xs) (drop i data)"
    by (simp add: add.commute)
  then show ?thesis by (simp add: assms)
qed



























subsection \<open>The pass after the loop is idempotent\<close>

lemma adj_Cons: "adj R (a # s) = ((s \<noteq> [] \<and> R a (hd s)) \<or> adj R s)"
  by (cases s) auto

lemma adj_dropWhile: "\<not> adj R s \<Longrightarrow> \<not> adj R (dropWhile P s)"
  by (induction s) (auto simp: adj_Cons)

lemma set_tl_subset: "set (tl xs) \<subseteq> set xs"
  by (cases xs) auto

lemma adj_tl: "\<not> adj R s \<Longrightarrow> \<not> adj R (tl s)"
  by (cases s) (auto simp: adj_Cons)

text \<open>Line endings.\<close>

lemma crlf_to_lf_no_CR: "CR \<notin> set (crlf_to_lf s)"
  by (induction s rule: crlf_to_lf.induct) auto

lemma crlf_to_lf_id: "CR \<notin> set s \<Longrightarrow> crlf_to_lf s = s"
  by (induction s rule: crlf_to_lf.induct) auto

text \<open>Runs of a class collapsed.\<close>

lemma collapse_Nil_iff: "collapse P [x] s = [] \<longleftrightarrow> s = []"
  by (induction P "[x]" s rule: collapse.induct) auto

lemma hd_collapse: "s \<noteq> [] \<Longrightarrow> hd (collapse P [x] s) = hd s \<or> hd (collapse P [x] s) = x"
  by (induction P "[x]" s rule: collapse.induct) auto

lemma hd_collapse_not: "s \<noteq> [] \<Longrightarrow> \<not> P (hd s) \<Longrightarrow> hd (collapse P [x] s) = hd s"
  by (induction P "[x]" s rule: collapse.induct) auto

lemma set_collapse: "set (collapse P [x] s) \<subseteq> insert x (set s)"
proof (induction P "[x]" s rule: collapse.induct)
  case (3 P c d cs)
  have "set (dropWhile P cs) \<subseteq> set cs" by (rule set_dropWhileD [THEN subsetI])
  with 3 show ?case by auto
qed auto

lemma collapse_id: "\<not> adj (\<lambda>a b. P a \<and> P b) s \<Longrightarrow> collapse P r s = s"
  by (induction P r s rule: collapse.induct) auto

lemma dropWhile_hd: "dropWhile P s \<noteq> [] \<Longrightarrow> \<not> P (hd (dropWhile P s))"
  using hd_dropWhile by blast

lemma collapse_normal:
  assumes "P x"
  shows "\<not> adj (\<lambda>a b. P a \<and> P b) (collapse P [x] s)"
proof (induction P "[x]" s rule: collapse.induct)
  case (3 P c d cs)
  show ?case
  proof (cases "P c \<and> P d")
    case True
    have "dropWhile P cs \<noteq> [] \<Longrightarrow> \<not> P (hd (collapse P [x] (dropWhile P cs)))"
      using hd_collapse_not [of "dropWhile P cs" P x] dropWhile_hd [of P cs] by simp
    with True 3 show ?thesis
      by (auto simp: adj_Cons collapse_Nil_iff simp del: dropWhile_eq_Nil_conv)
  next
    case False
    have "P c \<Longrightarrow> \<not> P (hd (collapse P [x] (d # cs)))"
      using False hd_collapse_not [of "d # cs" P x] by simp
    with False 3(2) show ?thesis
      by (auto simp: adj_Cons collapse_Nil_iff)
  qed
qed auto

lemma collapse_adj:
  assumes "\<not> adj R s" and "\<And>a. \<not> R a x" and "\<And>b. \<not> R x b"
  shows "\<not> adj R (collapse P [x] s)"
  using assms(1)
proof (induction P "[x]" s rule: collapse.induct)
  case (3 P c d cs)
  show ?case
  proof (cases "P c \<and> P d")
    case True
    from 3(3) have "\<not> adj R cs"
      by (simp add: adj_Cons)
    then have "\<not> adj R (dropWhile P cs)"
      by (rule adj_dropWhile)
    with True 3(1) assms(3) show ?thesis
      by (simp add: adj_Cons)
  next
    case False
    from 3(3) have r: "\<not> R c d" "\<not> adj R (d # cs)" by simp_all
    have "\<not> R c (hd (collapse P [x] (d # cs)))"
      using hd_collapse [of "d # cs" P x] r(1) assms(2) by auto
    with False 3(2) r show ?thesis
      by (auto simp: adj_Cons)
  qed
qed auto

text \<open>White space in front of punctuation.\<close>

lemma isPunct_not_isSpace: "isPunct c \<Longrightarrow> \<not> isSpace c"
  by (auto simp: isPunct_def isSpace_def)

lemma isSpace_not_isPunct: "isSpace c \<Longrightarrow> \<not> isPunct c"
  by (auto simp: isPunct_def isSpace_def)

lemma reSBP_Nil_iff: "reSpaceBeforePunct s = [] \<longleftrightarrow> s = []"
  by (cases s) auto

lemma hd_reSBP: "s \<noteq> [] \<Longrightarrow> hd (reSpaceBeforePunct s) = hd s \<or> isPunct (hd (reSpaceBeforePunct s))"
  by (cases s) auto

lemma set_reSBP: "set (reSpaceBeforePunct s) \<subseteq> set s"
proof (induction s rule: reSpaceBeforePunct.induct)
  case (2 c cs)
  have a: "set (dropWhile isSpace cs) \<subseteq> set cs" by (rule set_dropWhileD [THEN subsetI])
  have b: "dropWhile isSpace cs \<noteq> [] \<Longrightarrow> hd (dropWhile isSpace cs) \<in> set cs"
    using a hd_in_set by blast
  have "set (tl (dropWhile isSpace cs)) \<subseteq> set (dropWhile isSpace cs)"
    by (rule set_tl_subset)
  with a have c: "set (tl (dropWhile isSpace cs)) \<subseteq> set cs"
    by (rule order_trans [rotated])
  from 2 a b c show ?case by auto
qed simp

lemma reSBP_adj:
  assumes "\<not> adj R s" and "\<And>a p. isPunct p \<Longrightarrow> \<not> R a p"
  shows "\<not> adj R (reSpaceBeforePunct s)"
  using assms(1)
proof (induction s rule: reSpaceBeforePunct.induct)
  case (2 c cs)
  let ?d = "dropWhile isSpace cs"
  show ?case
  proof (cases "isSpace c \<and> ?d \<noteq> [] \<and> isPunct (hd ?d)")
    case True
    from 2(3) have "\<not> adj R cs" by (simp add: adj_Cons)
    then have d: "\<not> adj R ?d" by (rule adj_dropWhile)
    then have t: "\<not> adj R (tl ?d)" by (rule adj_tl)
    from d True have "tl ?d \<noteq> [] \<Longrightarrow> \<not> R (hd ?d) (hd (tl ?d))"
      by (cases ?d) (auto simp: adj_Cons)
    then have "tl ?d \<noteq> [] \<Longrightarrow> \<not> R (hd ?d) (hd (reSpaceBeforePunct (tl ?d)))"
      using hd_reSBP [of "tl ?d"] assms(2) by auto
    with True 2(1) t show ?thesis
      by (auto simp: adj_Cons reSBP_Nil_iff simp del: dropWhile_eq_Nil_conv)
  next
    case False
    from 2(3) have r: "cs \<noteq> [] \<Longrightarrow> \<not> R c (hd cs)" "\<not> adj R cs"
      by (simp_all add: adj_Cons)
    have "cs \<noteq> [] \<Longrightarrow> \<not> R c (hd (reSpaceBeforePunct cs))"
      using hd_reSBP [of cs] r(1) assms(2) by auto
    with False 2(2) r(2) show ?thesis
      by (auto simp: adj_Cons reSBP_Nil_iff)
  qed
qed simp

lemma space_run_adj:
  "isSpace c \<Longrightarrow> dropWhile isSpace cs \<noteq> [] \<Longrightarrow> isPunct (hd (dropWhile isSpace cs))
   \<Longrightarrow> adj (\<lambda>a b. isSpace a \<and> isPunct b) (c # cs)"
proof (induction cs arbitrary: c)
  case Nil
  then show ?case by simp
next
  case (Cons d cs)
  show ?case
  proof (cases "isSpace d")
    case True
    with Cons.prems have "dropWhile isSpace cs \<noteq> []" "isPunct (hd (dropWhile isSpace cs))"
      by simp_all
    with Cons.IH [OF True] show ?thesis by simp
  next
    case False
    with Cons.prems show ?thesis by simp
  qed
qed

lemma reSBP_id: "\<not> adj (\<lambda>a b. isSpace a \<and> isPunct b) s \<Longrightarrow> reSpaceBeforePunct s = s"
proof (induction s rule: reSpaceBeforePunct.induct)
  case (2 c cs)
  from 2(3) space_run_adj [of c cs]
  have n: "\<not> (isSpace c \<and> dropWhile isSpace cs \<noteq> [] \<and> isPunct (hd (dropWhile isSpace cs)))"
    by blast
  from 2(3) have "\<not> adj (\<lambda>a b. isSpace a \<and> isPunct b) cs" by (simp add: adj_Cons)
  with 2(2) n show ?case by auto
qed simp

lemma reSBP_normal: "\<not> adj (\<lambda>a b. isSpace a \<and> isPunct b) (reSpaceBeforePunct s)"
proof (induction s rule: reSpaceBeforePunct.induct)
  case (2 c cs)
  let ?d = "dropWhile isSpace cs"
  show ?case
  proof (cases "isSpace c \<and> ?d \<noteq> [] \<and> isPunct (hd ?d)")
    case True
    with 2(1) show ?thesis
      by (simp add: adj_Cons isPunct_not_isSpace del: dropWhile_eq_Nil_conv)
  next
    case False
    have "isSpace c \<Longrightarrow> cs \<noteq> [] \<Longrightarrow> \<not> isPunct (hd (reSpaceBeforePunct cs))"
    proof -
      assume c: "isSpace c" and ne: "cs \<noteq> []"
      then obtain d cs' where cs: "cs = d # cs'" by (cases cs) auto
      show ?thesis
      proof (cases "isSpace d")
        case True
        with False c cs show ?thesis
          by (simp add: isSpace_not_isPunct del: dropWhile_eq_Nil_conv)
      next
        case d: False
        with False c cs show ?thesis by (simp del: dropWhile_eq_Nil_conv)
      qed
    qed
    with False 2(2) show ?thesis
      by (auto simp: adj_Cons reSBP_Nil_iff)
  qed
qed simp


text \<open>The pass in terms of its four steps.\<close>

lemma rtf_normalize_eq:
  "rtf_normalize out = reSpaceBeforePunct (reSpaces (reNewlines (crlf_to_lf out)))"
  by (simp add: rtf_normalize_def normalize_newlines_eq [symmetric] normalize_newlines_def)

text \<open>
  Claim C8. The normalization after the loop (line endings unified, runs of two or
  more newlines collapsed to one, runs of two or more spaces or tabs collapsed to one
  space, white space in front of \<open>, . : ; ! ?\<close> removed) is idempotent.
\<close>

theorem rtf_normalize_idempotent: "rtf_normalize (rtf_normalize out) = rtf_normalize out"
proof -
  let ?NN = "\<lambda>a b. a = LF \<and> b = LF"
  let ?SS = "\<lambda>a b. (a = CHR '' '' \<or> a = TAB) \<and> (b = CHR '' '' \<or> b = TAB)"
  let ?WP = "\<lambda>a b. isSpace a \<and> isPunct b"
  let ?s1 = "crlf_to_lf out"
  let ?s2 = "reNewlines ?s1"
  let ?s3 = "reSpaces ?s2"
  let ?s4 = "reSpaceBeforePunct ?s3"
  have cr1: "CR \<notin> set ?s1" by (rule crlf_to_lf_no_CR)
  have cr2: "CR \<notin> set ?s2"
    using cr1 set_collapse [of "\<lambda>c. c = LF" LF ?s1] by (auto simp: reNewlines_def)
  have cr3: "CR \<notin> set ?s3"
    using cr2 set_collapse [of "\<lambda>c. c = CHR '' '' \<or> c = TAB" "CHR '' ''" ?s2]
    by (auto simp: reSpaces_def)
  have cr4: "CR \<notin> set ?s4"
    using cr3 set_reSBP [of ?s3] by auto
  have nn2: "\<not> adj ?NN ?s2"
    unfolding reNewlines_def by (rule collapse_normal) simp
  have nn3: "\<not> adj ?NN ?s3"
    unfolding reSpaces_def using nn2 by (rule collapse_adj) simp_all
  have nn4: "\<not> adj ?NN ?s4"
    using nn3 by (rule reSBP_adj) (auto simp: isPunct_def)
  have ss3: "\<not> adj ?SS ?s3"
    unfolding reSpaces_def by (rule collapse_normal) simp
  have ss4: "\<not> adj ?SS ?s4"
    using ss3 by (rule reSBP_adj) (auto simp: isPunct_def)
  have wp4: "\<not> adj ?WP ?s4" by (rule reSBP_normal)
  have 1: "crlf_to_lf ?s4 = ?s4" using cr4 by (rule crlf_to_lf_id)
  have 2: "reNewlines ?s4 = ?s4"
    by (simp only: reNewlines_def [of ?s4] collapse_id [OF nn4])
  have 3: "reSpaces ?s4 = ?s4"
    by (simp only: reSpaces_def [of ?s4] collapse_id [OF ss4])
  have 4: "reSpaceBeforePunct ?s4 = ?s4" using wp4 by (rule reSBP_id)
  show ?thesis
    by (simp only: rtf_normalize_eq 1 2 3 4)
qed

subsection \<open>UTF-8: decoding an encoded rune\<close>

lemma utf8_r3: "(r::int) div 4096 * 4096 + r div 64 mod 64 * 64 + r mod 64 = r"
proof -
  have 1: "r div 4096 = r div 64 div 64" by (simp add: div_mult2_eq [symmetric])
  have 2: "r div 64 = 64 * (r div 64 div 64) + r div 64 mod 64" by simp
  have 3: "r = 64 * (r div 64) + r mod 64" by simp
  from 1 2 3 show ?thesis by linarith
qed

lemma utf8_r4: "(r::int) div 262144 * 262144 + r div 4096 mod 64 * 4096 + r div 64 mod 64 * 64 + r mod 64 = r"
proof -
  have 1: "r div 262144 = r div 4096 div 64" by (simp add: div_mult2_eq [symmetric])
  have 2: "r div 4096 = 64 * (r div 4096 div 64) + r div 4096 mod 64" by simp
  have 3: "r div 4096 * 4096 + r div 64 mod 64 * 64 + r mod 64 = r" by (rule utf8_r3)
  from 1 2 3 show ?thesis by linarith
qed

lemma utf8_b3a:
  assumes "0x800 \<le> r" "r div 4096 = 0"
  shows "32 \<le> (r::int) div 64 mod 64"
proof -
  have 1: "r div 4096 = r div 64 div 64" by (simp add: div_mult2_eq [symmetric])
  have 2: "r div 64 = 64 * (r div 64 div 64) + r div 64 mod 64" by simp
  have 3: "r = 64 * (r div 64) + r mod 64" "r mod 64 < 64" by simp_all
  from assms 1 2 3 show ?thesis by linarith
qed

lemma utf8_b3b:
  assumes "\<not> (0xD800 \<le> r \<and> r \<le> 0xDFFF)" "r div 4096 = 13"
  shows "(r::int) div 64 mod 64 < 32"
proof -
  have 1: "r div 4096 = r div 64 div 64" by (simp add: div_mult2_eq [symmetric])
  have 2: "r div 64 = 64 * (r div 64 div 64) + r div 64 mod 64" by simp
  have 3: "r = 64 * (r div 64) + r mod 64" "r mod 64 < 64" "0 \<le> r mod 64" by simp_all
  have 4: "r = 4096 * (r div 4096) + r mod 4096" "r mod 4096 < 4096" by simp_all
  from assms(2) 4 have "r \<le> 0xDFFF" by linarith
  with assms(1) have "r < 0xD800" by linarith
  with assms(2) 1 2 3 show ?thesis by linarith
qed

lemma utf8_b4a:
  assumes "0x10000 \<le> r" "r div 262144 = 0"
  shows "16 \<le> (r::int) div 4096 mod 64"
proof -
  have 1: "r div 262144 = r div 4096 div 64" by (simp add: div_mult2_eq [symmetric])
  have 2: "r div 4096 = 64 * (r div 4096 div 64) + r div 4096 mod 64" by simp
  have 3: "r = 4096 * (r div 4096) + r mod 4096" "r mod 4096 < 4096" by simp_all
  from assms 1 2 3 show ?thesis by linarith
qed

lemma utf8_b4b:
  assumes "r \<le> 0x10FFFF" "r div 262144 = 4"
  shows "(r::int) div 4096 mod 64 < 16"
proof -
  have 1: "r div 262144 = r div 4096 div 64" by (simp add: div_mult2_eq [symmetric])
  have 2: "r div 4096 = 64 * (r div 4096 div 64) + r div 4096 mod 64" by simp
  have 3: "r = 4096 * (r div 4096) + r mod 4096" "0 \<le> r mod 4096" by simp_all
  from assms 1 2 3 show ?thesis by linarith
qed


lemma mod_192: "0 \<le> x \<Longrightarrow> x < 32 \<Longrightarrow> (192 + x :: int) mod 32 = x"
  by (simp add: mod_pos_pos_trivial flip: mod_add_eq [of 192 32 x])

lemma mod_224: "0 \<le> x \<Longrightarrow> x < 16 \<Longrightarrow> (224 + x :: int) mod 16 = x"
  by (simp add: mod_pos_pos_trivial flip: mod_add_eq [of 224 16 x])

lemma mod_240: "0 \<le> x \<Longrightarrow> x < 8 \<Longrightarrow> (240 + x :: int) mod 8 = x"
  by (simp add: mod_pos_pos_trivial flip: mod_add_eq [of 240 8 x])

lemma mod_128: "0 \<le> x \<Longrightarrow> x < 64 \<Longrightarrow> (128 + x :: int) mod 64 = x"
  by (simp add: mod_pos_pos_trivial flip: mod_add_eq [of 128 64 x])

lemma of_char_char_of_nat: "0 \<le> n \<Longrightarrow> n < 256 \<Longrightarrow> (of_char (char_of (n::int)) :: nat) = nat n"
proof -
  assume a: "0 \<le> n" "n < 256"
  have "int (of_char (char_of n) :: nat) = (of_char (char_of n) :: int)"
    by (rule of_nat_of_char)
  with a show ?thesis by simp
qed

lemma first_char_of:
  "0 \<le> n \<Longrightarrow> n < 256 \<Longrightarrow> first (char_of (n::int)) =
    (if n < 0x80 then AS
     else if n < 0xC2 then XX
     else if n < 0xE0 then Lead 2 0x80 0xBF
     else if n = 0xE0 then Lead 3 0xA0 0xBF
     else if n < 0xED then Lead 3 0x80 0xBF
     else if n = 0xED then Lead 3 0x80 0x9F
     else if n < 0xF0 then Lead 3 0x80 0xBF
     else if n = 0xF0 then Lead 4 0x90 0xBF
     else if n < 0xF4 then Lead 4 0x80 0xBF
     else if n = 0xF4 then Lead 4 0x80 0x8F
     else XX)"
proof -
  assume a: "0 \<le> n" "n < 256"
  have lt: "(nat n < k) = (n < int k)" for k using a by linarith
  have eq: "(nat n = k) = (n = int k)" for k using a by linarith
  show ?thesis
    unfolding first_def Let_def of_char_char_of_nat [OF a] lt eq by simp
qed

lemma DecodeRune_AS: "first c = AS \<Longrightarrow> DecodeRune (c # t) = (of_char c, 1)"
  by (simp add: DecodeRune_def)

lemma DecodeRune_Lead2:
  "first c0 = Lead 2 lo hi \<Longrightarrow> lo \<le> of_char c1 \<Longrightarrow> of_char c1 \<le> hi \<Longrightarrow>
   DecodeRune (c0 # c1 # t) = (of_char c0 mod 32 * 64 + of_char c1 mod 64, 2)"
  by (simp add: DecodeRune_def not_less [symmetric])

lemma DecodeRune_Lead3:
  "first c0 = Lead 3 lo hi \<Longrightarrow> lo \<le> of_char c1 \<Longrightarrow> of_char c1 \<le> hi \<Longrightarrow> contb c2 \<Longrightarrow>
   DecodeRune (c0 # c1 # c2 # t)
     = (of_char c0 mod 16 * 4096 + of_char c1 mod 64 * 64 + of_char c2 mod 64, 3)"
  by (simp add: DecodeRune_def not_less [symmetric])

lemma DecodeRune_Lead4:
  "first c0 = Lead 4 lo hi \<Longrightarrow> lo \<le> of_char c1 \<Longrightarrow> of_char c1 \<le> hi \<Longrightarrow> contb c2 \<Longrightarrow>
   contb c3 \<Longrightarrow>
   DecodeRune (c0 # c1 # c2 # c3 # t)
     = (of_char c0 mod 8 * 262144 + of_char c1 mod 64 * 4096 + of_char c2 mod 64 * 64
        + of_char c3 mod 64, 4)"
  by (simp add: DecodeRune_def not_less [symmetric])

lemma cont_nat: "0 \<le> m \<Longrightarrow> m < 64 \<Longrightarrow> (of_char (char_of (0x80 + m :: int)) :: nat) = nat (0x80 + m)"
  by (simp add: of_char_char_of_nat)

lemma contb_char_of: "0 \<le> m \<Longrightarrow> m < 64 \<Longrightarrow> contb (char_of (0x80 + m :: int))"
  unfolding contb_def by (simp only: cont_nat) linarith

lemma cont_value: "0 \<le> m \<Longrightarrow> m < 64 \<Longrightarrow> (of_char (char_of (0x80 + m :: int)) :: int) mod 64 = m"
  by (simp add: mod_128)

lemma DecodeRune_EncodeRune_1:
  assumes "0 \<le> r" "r \<le> 0x7F"
  shows "DecodeRune (EncodeRune r @ rest) = (r, 1)"
proof -
  have "first (char_of r) = AS"
    using assms by (simp add: first_char_of)
  then show ?thesis
    using assms by (simp add: EncodeRune_def DecodeRune_AS)
qed

lemma DecodeRune_EncodeRune_2:
  assumes "0x80 \<le> r" "r \<le> 0x7FF"
  shows "DecodeRune (EncodeRune r @ rest) = (r, 2)"
proof -
  have d: "2 \<le> r div 64" "r div 64 < 32" using assms by auto
  have m: "0 \<le> r mod 64" "r mod 64 < 64" by auto
  have f: "first (char_of (0xC0 + r div 64)) = Lead 2 0x80 0xBF"
    using d by (simp add: first_char_of)
  have c: "0x80 \<le> (of_char (char_of (0x80 + r mod 64)) :: nat)"
    "(of_char (char_of (0x80 + r mod 64)) :: nat) \<le> 0xBF"
    using contb_char_of [OF m] by (simp_all add: contb_def)
  have v: "(of_char (char_of (0xC0 + r div 64)) :: int) mod 32 * 64
          + of_char (char_of (0x80 + r mod 64)) mod 64 = r"
  proof -
    have a: "(of_char (char_of (0xC0 + r div 64)) :: int) = 0xC0 + r div 64"
      using d by simp
    have b: "(of_char (char_of (0x80 + r mod 64)) :: int) mod 64 = r mod 64"
      using m by (rule cont_value)
    have c: "(0xC0 + r div 64) mod 32 = r div 64"
      using d by (simp add: mod_192)
    show ?thesis
      by (simp only: a b c) simp
  qed
  show ?thesis
    using assms DecodeRune_Lead2 [OF f c] v by (simp add: EncodeRune_def)
qed

lemma DecodeRune_EncodeRune_3:
  assumes "0x800 \<le> r" "r \<le> 0xFFFF" "\<not> (0xD800 \<le> r \<and> r \<le> 0xDFFF)"
  shows "DecodeRune (EncodeRune r @ rest) = (r, 3)"
proof -
  let ?b0 = "char_of (0xE0 + r div 4096)"
  let ?b1 = "char_of (0x80 + (r div 64) mod 64)"
  let ?b2 = "char_of (0x80 + r mod 64)"
  have d: "0 \<le> r div 4096" "r div 4096 < 16" using assms by auto
  have m1: "0 \<le> (r div 64) mod 64" "(r div 64) mod 64 < 64" by auto
  have m2: "0 \<le> r mod 64" "r mod 64 < 64" by auto
  have n1: "(of_char ?b1 :: nat) = nat (0x80 + (r div 64) mod 64)"
    using m1 by (rule cont_nat)
  obtain lo hi where f: "first ?b0 = Lead 3 lo hi"
    and lo: "lo \<le> nat (0x80 + (r div 64) mod 64)" and hi: "nat (0x80 + (r div 64) mod 64) \<le> hi"
  proof -
    consider "r div 4096 = 0" | "r div 4096 = 13" | "r div 4096 \<noteq> 0" "r div 4096 \<noteq> 13"
      by blast
    then show ?thesis
    proof cases
      case 1
      then have "first ?b0 = Lead 3 0xA0 0xBF" by (simp add: first_char_of)
      moreover have "32 \<le> (r div 64) mod 64" using assms(1) 1 by (rule utf8_b3a)
      ultimately show ?thesis using that [of "0xA0" "0xBF"] m1 by simp
    next
      case 2
      then have "first ?b0 = Lead 3 0x80 0x9F" by (simp add: first_char_of)
      moreover have "(r div 64) mod 64 < 32" using assms(3) 2 by (rule utf8_b3b)
      ultimately show ?thesis using that [of "0x80" "0x9F"] m1 by simp
    next
      case 3
      then have "first ?b0 = Lead 3 0x80 0xBF"
        using d by (simp add: first_char_of)
      then show ?thesis using that [of "0x80" "0xBF"] m1 by simp
    qed
  qed
  have v: "(of_char ?b0 :: int) mod 16 * 4096 + of_char ?b1 mod 64 * 64 + of_char ?b2 mod 64 = r"
  proof -
    have a: "(of_char ?b0 :: int) = 0xE0 + r div 4096"
      using d by simp
    have b: "(of_char ?b1 :: int) mod 64 = r div 64 mod 64"
      using m1 by (rule cont_value)
    have b': "(of_char ?b2 :: int) mod 64 = r mod 64"
      using m2 by (rule cont_value)
    have c: "(0xE0 + r div 4096) mod 16 = r div 4096"
      using d by (simp add: mod_224)
    show ?thesis
      by (simp only: a b b' c utf8_r3)
  qed
  have "DecodeRune (?b0 # ?b1 # ?b2 # rest)
        = (of_char ?b0 mod 16 * 4096 + of_char ?b1 mod 64 * 64 + of_char ?b2 mod 64, 3)"
  proof (rule DecodeRune_Lead3 [OF f])
    show "lo \<le> of_char ?b1" using lo by (simp only: n1)
    show "of_char ?b1 \<le> hi" using hi by (simp only: n1)
    show "contb ?b2" using m2 by (rule contb_char_of)
  qed
  then have dec: "DecodeRune (?b0 # ?b1 # ?b2 # rest) = (r, 3)"
    by (simp only: v)
  have ns: "(0xD800 \<le> r \<and> r \<le> 0xDFFF) = False"
    using assms(3) by simp
  have enc: "EncodeRune r = [?b0, ?b1, ?b2]"
    using assms(1,2) by (simp add: EncodeRune_def ns)
  show ?thesis
    unfolding enc using dec by simp
qed

lemma DecodeRune_EncodeRune_4:
  assumes "0x10000 \<le> r" "r \<le> 0x10FFFF"
  shows "DecodeRune (EncodeRune r @ rest) = (r, 4)"
proof -
  let ?b0 = "char_of (0xF0 + r div 262144)"
  let ?b1 = "char_of (0x80 + (r div 4096) mod 64)"
  let ?b2 = "char_of (0x80 + (r div 64) mod 64)"
  let ?b3 = "char_of (0x80 + r mod 64)"
  have d: "0 \<le> r div 262144" "r div 262144 < 5" using assms by auto
  have m1: "0 \<le> (r div 4096) mod 64" "(r div 4096) mod 64 < 64" by auto
  have m2: "0 \<le> (r div 64) mod 64" "(r div 64) mod 64 < 64" by auto
  have m3: "0 \<le> r mod 64" "r mod 64 < 64" by auto
  have n1: "(of_char ?b1 :: nat) = nat (0x80 + (r div 4096) mod 64)"
    using m1 by (rule cont_nat)
  obtain lo hi where f: "first ?b0 = Lead 4 lo hi"
    and lo: "lo \<le> nat (0x80 + (r div 4096) mod 64)" and hi: "nat (0x80 + (r div 4096) mod 64) \<le> hi"
  proof -
    consider "r div 262144 = 0" | "r div 262144 = 4" | "r div 262144 \<noteq> 0" "r div 262144 \<noteq> 4"
      by blast
    then show ?thesis
    proof cases
      case 1
      then have "first ?b0 = Lead 4 0x90 0xBF" by (simp add: first_char_of)
      moreover have "16 \<le> (r div 4096) mod 64" using assms(1) 1 by (rule utf8_b4a)
      ultimately show ?thesis using that [of "0x90" "0xBF"] m1 by simp
    next
      case 2
      then have "first ?b0 = Lead 4 0x80 0x8F" by (simp add: first_char_of)
      moreover have "(r div 4096) mod 64 < 16" using assms(2) 2 by (rule utf8_b4b)
      ultimately show ?thesis using that [of "0x80" "0x8F"] m1 by simp
    next
      case 3
      then have "first ?b0 = Lead 4 0x80 0xBF"
        using d by (simp add: first_char_of)
      then show ?thesis using that [of "0x80" "0xBF"] m1 by simp
    qed
  qed
  have v: "(of_char ?b0 :: int) mod 8 * 262144 + of_char ?b1 mod 64 * 4096
           + of_char ?b2 mod 64 * 64 + of_char ?b3 mod 64 = r"
  proof -
    have a: "(of_char ?b0 :: int) = 0xF0 + r div 262144"
      using d by simp
    have b: "(of_char ?b1 :: int) mod 64 = r div 4096 mod 64"
      using m1 by (rule cont_value)
    have b': "(of_char ?b2 :: int) mod 64 = r div 64 mod 64"
      using m2 by (rule cont_value)
    have b'': "(of_char ?b3 :: int) mod 64 = r mod 64"
      using m3 by (rule cont_value)
    have c: "(0xF0 + r div 262144) mod 8 = r div 262144"
      using d by (simp add: mod_240)
    show ?thesis
      by (simp only: a b b' b'' c utf8_r4)
  qed
  have "DecodeRune (?b0 # ?b1 # ?b2 # ?b3 # rest)
        = (of_char ?b0 mod 8 * 262144 + of_char ?b1 mod 64 * 4096 + of_char ?b2 mod 64 * 64
           + of_char ?b3 mod 64, 4)"
  proof (rule DecodeRune_Lead4 [OF f])
    show "lo \<le> of_char ?b1" using lo by (simp only: n1)
    show "of_char ?b1 \<le> hi" using hi by (simp only: n1)
    show "contb ?b2" using m2 by (rule contb_char_of)
    show "contb ?b3" using m3 by (rule contb_char_of)
  qed
  then have dec: "DecodeRune (?b0 # ?b1 # ?b2 # ?b3 # rest) = (r, 4)"
    by (simp only: v)
  have enc: "EncodeRune r = [?b0, ?b1, ?b2, ?b3]"
    using assms by (simp add: EncodeRune_def)
  show ?thesis
    unfolding enc using dec by simp
qed

lemma DecodeRune_EncodeRune:
  assumes "ValidRune r"
  shows "DecodeRune (EncodeRune r @ rest) = (r, length (EncodeRune r))"
proof -
  consider "r \<le> 0x7F" | "0x80 \<le> r" "r \<le> 0x7FF" | "0x800 \<le> r" "r \<le> 0xFFFF"
    | "0x10000 \<le> r"
    by linarith
  then show ?thesis
  proof cases
    case 1
    with assms DecodeRune_EncodeRune_1 [of r rest] show ?thesis
      by (simp add: ValidRune_def EncodeRune_def)
  next
    case 2
    with assms DecodeRune_EncodeRune_2 [of r rest] show ?thesis
      by (simp add: ValidRune_def EncodeRune_def)
  next
    case 3
    with assms DecodeRune_EncodeRune_3 [of r rest] show ?thesis
      by (simp add: ValidRune_def EncodeRune_def)
  next
    case 4
    with assms DecodeRune_EncodeRune_4 [of r rest] show ?thesis
      by (simp add: ValidRune_def EncodeRune_def)
  qed
qed

lemma EncodeRune_nonempty: "EncodeRune r \<noteq> []"
  by (simp add: EncodeRune_def)

lemma runes_of_EncodeRune:
  assumes "ValidRune r"
  shows "runes_of (EncodeRune r @ rest) = r # runes_of rest"
  using DecodeRune_EncodeRune [OF assms, of rest] EncodeRune_nonempty [of r]
  by (subst runes_of.simps) simp

lemma runes_of_Nil: "runes_of [] = []"
  by (subst runes_of.simps) simp

subsection \<open>The Unicode escape\<close>

lemma isDigit_value: "isDigit c \<Longrightarrow> 48 \<le> (of_char c :: int)"
proof -
  assume "isDigit c"
  then have "(48::nat) \<le> of_char c" by (simp add: isDigit_def less_eq_char_def)
  then have "int 48 \<le> int (of_char c)" by (simp only: of_nat_le_iff)
  then show ?thesis by (simp add: of_nat_of_char)
qed

lemma dec_fold_nonneg:
  "0 \<le> n \<Longrightarrow> list_all isDigit ds
   \<Longrightarrow> (0::int) \<le> foldl (\<lambda>n c. 10 * n + (of_char c - 48)) n ds"
proof (induction ds arbitrary: n)
  case Nil
  then show ?case by simp
next
  case (Cons c ds)
  from Cons.prems have "0 \<le> 10 * n + (of_char c - 48)"
    using isDigit_value [of c] by simp
  with Cons show ?case by simp
qed

lemma isDigit_no_sign: "isDigit c \<Longrightarrow> c \<noteq> CHR ''+'' \<and> c \<noteq> CHR ''-''"
  by (auto simp: isDigit_def less_eq_char_def)

lemma isDigit_not_isLetter: "isDigit c \<Longrightarrow> \<not> isLetter c"
  by (auto simp: isDigit_def isLetter_def less_eq_char_def)

lemma Atoi_digits:
  assumes "ds \<noteq> []" and "list_all isDigit ds" and "dec_value ds \<le> 9223372036854775807"
  shows "Atoi ds = Some (dec_value ds)"
proof -
  from assms(1,2) have h: "isDigit (hd ds)" by (cases ds) auto
  have "0 \<le> dec_value ds"
    unfolding dec_value_def using assms(2) by (intro dec_fold_nonneg) simp_all
  with assms h isDigit_no_sign [OF h] show ?thesis
    by (simp add: Atoi_def Let_def)
qed

lemma numeric_arg_u:
  assumes at: "drop (rtf_i s) data = ds @ rest"
    and ds: "ds \<noteq> []" "list_all isDigit ds" and rest: "rest = [] \<or> \<not> isDigit (hd rest)"
    and v: "Atoi ds = Some v" and skip: "skipUntilDepth s < 0"
  shows "numeric_arg data ''u'' s
         = Some ((WriteRune (int32 v) s)
                   \<lparr>rtf_i := rtf_i s + length ds
                             + (if rest \<noteq> [] \<and> hd rest = CHR ''?'' then 1 else 0)\<rparr>)"
proof -
  from ds obtain c cs where c: "ds = c # cs" and dc: "isDigit c" by (cases ds) auto
  from at c have i: "idx data (rtf_i s) = Some c"
    by (intro idx_drop [of _ _ _ "cs @ rest"]) simp
  from isDigit_no_sign [OF dc] have neg: "c \<noteq> CHR ''-''" by simp
  have sc: "scan isDigit data (rtf_i s) = rtf_i s + length ds"
    using at ds(2) rest by (rule scan_prefix)
  have sl: "slice data (rtf_i s) (rtf_i s + length ds) = Some ds"
    using at ds(1) by (rule slice_drop)
  have q: "at_is (\<lambda>c. c = CHR ''?'') data (rtf_i s + length ds)
           = (rest \<noteq> [] \<and> hd rest = CHR ''?'')"
    using drop_drop_app [OF at] by (rule at_is_drop)
  show ?thesis
    using skip by (simp add: numeric_arg_def i neg sc sl v q Let_def)
qed

lemma control_word_u:
  assumes at: "drop (rtf_i s) data = CHR ''u'' # ds @ rest"
    and ds: "ds \<noteq> []" "list_all isDigit ds" and rest: "rest = [] \<or> \<not> isDigit (hd rest)"
    and v: "Atoi ds = Some v" and skip: "skipUntilDepth s < 0"
  shows "\<exists>s'. control_word data s = Some s'
           \<and> rtf_b s' = rtf_b s @ EncodeRune (int32 v)
           \<and> depth s' = depth s \<and> skipUntilDepth s' = skipUntilDepth s
           \<and> drop (rtf_i s') data = after_escape rest"
proof -
  let ?i = "rtf_i s"
  let ?s1 = "s\<lparr>rtf_i := Suc ?i\<rparr>"
  define r1 where "r1 = (if rest \<noteq> [] \<and> hd rest = CHR ''?'' then tl rest else rest)"
  define j where "j = Suc ?i + length ds + (if rest \<noteq> [] \<and> hd rest = CHR ''?'' then 1 else 0)"
  define s2 where "s2 = (WriteRune (int32 v) ?s1)\<lparr>rtf_i := j\<rparr>"
  from ds obtain c cs where c: "ds = c # cs" and dc: "isDigit c" by (cases ds) auto
  have at': "drop ?i data = ''u'' @ (ds @ rest)" using at by simp
  have l: "list_all isLetter ''u''" by (simp add: isLetter_def)
  have r: "ds @ rest = [] \<or> \<not> isLetter (hd (ds @ rest))"
    using c isDigit_not_isLetter [OF dc] by simp
  have "scan isLetter data ?i = ?i + length ''u''"
    using at' l r by (rule scan_prefix)
  then have sc: "scan isLetter data ?i = Suc ?i" by simp
  have "slice data ?i (?i + length ''u'') = Some ''u''" using at' by (rule slice_drop) simp
  then have sl: "slice data ?i (Suc ?i) = Some ''u''" by simp
  have d1: "drop (Suc ?i) data = ds @ rest" using drop_ConsD(3) [OF at] .
  have num: "at_is (\<lambda>c. c = CHR ''-'' \<or> isDigit c) data (Suc ?i)"
    using at_is_drop [OF d1, of "\<lambda>c. c = CHR ''-'' \<or> isDigit c"] c dc by simp
  have na: "numeric_arg data ''u'' ?s1 = Some s2"
    using numeric_arg_u [of ?s1 data ds rest v] d1 ds rest v skip
    by (simp add: s2_def j_def)
  have we: "word_effect ''u'' s2 = s2" by (simp add: word_effect_def)
  have s2: "rtf_i s2 = j" "rtf_b s2 = rtf_b s @ EncodeRune (int32 v)" "depth s2 = depth s"
    "skipUntilDepth s2 = skipUntilDepth s"
    by (simp_all add: s2_def)
  have d2: "drop j data = r1"
    using drop_drop_app [OF d1] by (auto simp: j_def r1_def drop_Suc tl_drop)
  have sp: "at_is (\<lambda>c. c = CHR '' '') data j = (r1 \<noteq> [] \<and> hd r1 = CHR '' '')"
    using d2 by (rule at_is_drop)
  have ae: "after_escape rest = (if r1 \<noteq> [] \<and> hd r1 = CHR '' '' then tl r1 else r1)"
    by (simp add: after_escape_def r1_def Let_def)
  have cw: "control_word data s
        = (if at_is (\<lambda>c. c = CHR '' '') data (rtf_i s2)
           then Some (s2\<lparr>rtf_i := rtf_i s2 + 1\<rparr>) else Some s2)"
    by (simp only: control_word_def Let_def sc sl option.case num if_True na we)
  show ?thesis
  proof (cases "r1 \<noteq> [] \<and> hd r1 = CHR '' ''")
    case True
    have "drop (j + 1) data = tl (drop j data)"
      by (simp add: drop_Suc tl_drop)
    with True sp d2 ae cw s2 show ?thesis
      by simp
  next
    case False
    with sp d2 ae cw s2 show ?thesis
      by auto
  qed
qed

lemma bom_escape_state:
  "rtf_run 2 ([BSL, CHR 0x27] @ ''ff'' @ [BSL, CHR 0x27] @ ''fe'' @ [BSL] @ ''u9472?'') rtf_init
     = Some \<lparr>rtf_i = 8, depth = 0, skipUntilDepth = - 1, rtf_b = [CHR 0xFF, CHR 0xFE]\<rparr>"
  by code_simp

lemma bom_escape_loop:
  "rtf_loop ([BSL, CHR 0x27] @ ''ff'' @ [BSL, CHR 0x27] @ ''fe'' @ [BSL] @ ''u9472?'') rtf_init
     = Some \<lparr>rtf_i = 15, depth = 0, skipUntilDepth = - 1,
              rtf_b = [CHR 0xFF, CHR 0xFE, CHR 0xE2, CHR 0x94, CHR 0x80]\<rparr>"
  by code_simp

lemma bom_escape_normalize:
  "rtf_normalize [CHR 0xFF, CHR 0xFE, CHR 0xE2, CHR 0x94, CHR 0x80]
     = [CHR 0xFF, CHR 0xFE, CHR 0xE2, CHR 0x94, CHR 0x80]"
  by code_simp

lemma bom_escape_invalid: "\<not> utf8_Valid [CHR 0xFF, CHR 0xFE, CHR 0xE2, CHR 0x94, CHR 0x80]"
  by code_simp

lemma bom_escape_decode:
  "string_of_runes [0x94E2] = [CHR 0xE9, CHR 0x93, CHR 0xA2]"
  by code_simp

lemma bom_escape_result:
  "extractRTF ([BSL, CHR 0x27] @ ''ff'' @ [BSL, CHR 0x27] @ ''fe'' @ [BSL] @ ''u9472?'')
     = ([CHR 0xE9, CHR 0x93, CHR 0xA2], None)"
  unfolding extractRTF_def bom_escape_loop
  by (simp add: bom_escape_normalize bom_escape_invalid bom_escape_decode)

lemma bom_escape_runes: "runes_of [CHR 0xE9, CHR 0x93, CHR 0xA2] = [0x94E2]"
  by code_simp

lemma surrogate_escape_result:
  "extractRTF ([BSL] @ ''u55357?'') = ([CHR 0xEF, CHR 0xBF, CHR 0xBD], None)"
  by code_simp

lemma RuneError_runes: "runes_of [CHR 0xEF, CHR 0xBF, CHR 0xBD] = [0xFFFD]"
  by code_simp

text \<open>The run behind a reached state, and the buffer, which only grows.\<close>

lemma reach_loop: "reach data s \<Longrightarrow> rtf_loop data s = rtf_loop data rtf_init"
proof (induction rule: reach.induct)
  case reach_init
  show ?case ..
next
  case (reach_step s s')
  have "rtf_loop data s = rtf_loop data s'"
    using reach_step(2,3) by (subst rtf_loop.simps) simp
  with reach_step(4) show ?case by simp
qed

lemma control_symbol_grow:
  "control_symbol data s = Some s' \<Longrightarrow> \<exists>x. rtf_b s' = rtf_b s @ x"
  by (auto simp: control_symbol_def Let_def split: option.splits if_splits)

lemma numeric_arg_grow:
  "numeric_arg data word s = Some s' \<Longrightarrow> \<exists>x. rtf_b s' = rtf_b s @ x"
  by (auto simp: numeric_arg_def Let_def split: option.splits if_splits)

lemma word_effect_grow: "\<exists>x. rtf_b (word_effect word s) = rtf_b s @ x"
  by (simp add: word_effect_def)

lemma control_word_grow:
  assumes "control_word data s = Some s'"
  shows "\<exists>x. rtf_b s' = rtf_b s @ x"
proof -
  let ?s1 = "s\<lparr>rtf_i := scan isLetter data (rtf_i s)\<rparr>"
  let ?w = "take (scan isLetter data (rtf_i s) - rtf_i s) (drop (rtf_i s) data)"
  from assms obtain t where
    t: "t = ?s1 \<or> numeric_arg data ?w ?s1 = Some t"
    and s': "s' = word_effect ?w t \<or> s' = (word_effect ?w t)\<lparr>rtf_i := rtf_i (word_effect ?w t) + 1\<rparr>"
    by (auto simp: control_word_def Let_def slice_def split: option.splits if_splits)
  from t obtain x where x: "rtf_b t = rtf_b s @ x"
    using numeric_arg_grow [of data ?w ?s1 t] by auto
  from word_effect_grow [of ?w t] obtain y where y: "rtf_b (word_effect ?w t) = rtf_b t @ y"
    by blast
  from s' have "rtf_b s' = rtf_b (word_effect ?w t)" by auto
  with x y show ?thesis by simp
qed

lemma rtf_step_grow:
  assumes "rtf_step data s = Some s'"
  shows "\<exists>x. rtf_b s' = rtf_b s @ x"
proof -
  let ?s1 = "s\<lparr>rtf_i := rtf_i s + 1\<rparr>"
  note g = control_symbol_grow [of data ?s1 s'] control_word_grow [of data ?s1 s']
  from assms g show ?thesis
    by (auto simp: rtf_step_def idx_def Let_def split: option.splits if_splits)
qed

lemma rtf_loop_grow: "rtf_loop data s = Some f \<Longrightarrow> \<exists>x. rtf_b f = rtf_b s @ x"
proof (induction data s rule: rtf_loop.induct)
  case (1 data s)
  show ?case
  proof (cases "rtf_i s < length data")
    case True
    with 1(2) obtain s' where s': "rtf_step data s = Some s'" and l: "rtf_loop data s' = Some f"
      by (subst (asm) rtf_loop.simps) (auto split: option.splits)
    from 1(1) [OF True s' l] obtain x where "rtf_b f = rtf_b s' @ x" by blast
    moreover from rtf_step_grow [OF s'] obtain y where "rtf_b s' = rtf_b s @ y" by blast
    ultimately show ?thesis by simp
  next
    case False
    with 1(2) show ?thesis by (subst (asm) rtf_loop.simps) simp
  qed
qed


text \<open>The pass after the loop splits at a byte it neither drops nor merges.\<close>

lemma split_pass:
  assumes S1: "\<And>b1 c r. Q c \<Longrightarrow> g (b1 @ c # r) = g b1 @ g (c # r)"
    and S2: "\<And>c r. Q c \<Longrightarrow> g (c # r) = c # g r"
    and x: "x \<noteq> []" "list_all Q x"
  shows "g (b1 @ x @ b2) = g b1 @ x @ g b2"
proof -
  have run: "list_all Q xs \<Longrightarrow> g (xs @ b2) = xs @ g b2" for xs
    by (induction xs) (simp_all add: S2)
  from x obtain c xs where c: "x = c # xs" "Q c" "list_all Q xs" by (cases x) auto
  have "g (b1 @ c # (xs @ b2)) = g b1 @ g (c # (xs @ b2))" using c(2) by (rule S1)
  also have "g (c # (xs @ b2)) = c # g (xs @ b2)" using c(2) by (rule S2)
  also have "g (xs @ b2) = xs @ g b2" using c(3) by (rule run)
  finally show ?thesis by (simp add: c(1))
qed

lemma crlf_S1: "c \<noteq> LF \<Longrightarrow> crlf_to_lf (b1 @ c # r) = crlf_to_lf b1 @ crlf_to_lf (c # r)"
  by (induction b1 rule: crlf_to_lf.induct) simp_all

lemma crlf_S2: "c \<noteq> CR \<Longrightarrow> crlf_to_lf (c # r) = c # crlf_to_lf r"
  by (cases r) simp_all

lemma dropWhile_app_stop:
  "\<not> P c \<Longrightarrow> dropWhile P (cs @ c # r) = dropWhile P cs @ c # r"
  by (induction cs) simp_all

lemma collapse_S1:
  "\<not> P c \<Longrightarrow> collapse P r (b1 @ c # rest) = collapse P r b1 @ collapse P r (c # rest)"
proof (induction P r b1 rule: collapse.induct)
  case (1 P r)
  show ?case by simp
next
  case (2 P r a)
  then show ?case by simp
next
  case (3 P r a d cs)
  show ?case
  proof (cases "P a \<and> P d")
    case True
    with 3(1) [OF True 3(3)] dropWhile_app_stop [of P c cs rest] 3(3) show ?thesis by simp
  next
    case False
    with 3(2) [OF False 3(3)] show ?thesis by auto
  qed
qed

lemma collapse_S2: "\<not> P c \<Longrightarrow> collapse P r (c # rest) = c # collapse P r rest"
  by (cases rest) simp_all

lemma reSBP_S1:
  "\<not> isSpace c \<Longrightarrow> \<not> isPunct c
   \<Longrightarrow> reSpaceBeforePunct (b1 @ c # rest) = reSpaceBeforePunct b1 @ reSpaceBeforePunct (c # rest)"
proof (induction b1 rule: reSpaceBeforePunct.induct)
  case 1
  show ?case by simp
next
  case (2 a cs)
  let ?d = "dropWhile isSpace cs"
  have dw: "dropWhile isSpace (cs @ c # rest) = ?d @ c # rest"
    using 2(3) by (rule dropWhile_app_stop)
  show ?case
  proof (cases "isSpace a \<and> ?d \<noteq> [] \<and> isPunct (hd ?d)")
    case True
    then have t: "tl (?d @ c # rest) = tl ?d @ c # rest" "hd (?d @ c # rest) = hd ?d" by simp_all
    from 2(1) [OF True 2(3,4)] True dw t show ?thesis by simp
  next
    case False
    have neg: "\<not> (isSpace a \<and> ?d @ c # rest \<noteq> [] \<and> isPunct (hd (?d @ c # rest)))"
    proof (cases "?d = []")
      case True
      then have "hd (?d @ c # rest) = c" by (simp del: dropWhile_eq_Nil_conv)
      then show ?thesis using 2(4) by (simp del: dropWhile_eq_Nil_conv)
    next
      case False
      then have h: "hd (?d @ c # rest) = hd ?d" by simp
      from \<open>\<not> (isSpace a \<and> ?d \<noteq> [] \<and> isPunct (hd ?d))\<close> False
      show ?thesis unfolding h by blast
    qed
    have l: "reSpaceBeforePunct (a # (cs @ c # rest)) = a # reSpaceBeforePunct (cs @ c # rest)"
      by (simp only: reSpaceBeforePunct.simps dw neg if_False)
    have r: "reSpaceBeforePunct (a # cs) = a # reSpaceBeforePunct cs"
      by (simp only: reSpaceBeforePunct.simps False if_False)
    show ?thesis
      by (simp only: append_Cons l r 2(2) [OF False 2(3,4)])
  qed
qed

lemma reSBP_S2: "\<not> isSpace c \<Longrightarrow> reSpaceBeforePunct (c # rest) = c # reSpaceBeforePunct rest"
  by simp

lemma rtf_normalize_split:
  assumes "x \<noteq> []" and "list_all neutral x"
  shows "rtf_normalize (b1 @ x @ b2) = rtf_normalize b1 @ x @ rtf_normalize b2"
proof -
  have 1: "crlf_to_lf (b1 @ x @ b2) = crlf_to_lf b1 @ x @ crlf_to_lf b2" for b1 b2
    using _ _ assms
  proof (rule split_pass)
    fix b1 c r assume "neutral c"
    then show "crlf_to_lf (b1 @ c # r) = crlf_to_lf b1 @ crlf_to_lf (c # r)"
      by (intro crlf_S1) (auto simp: neutral_def isSpace_def)
  next
    fix c r assume "neutral c"
    then show "crlf_to_lf (c # r) = c # crlf_to_lf r"
      by (intro crlf_S2) (auto simp: neutral_def isSpace_def)
  qed
  have 2: "reNewlines (b1 @ x @ b2) = reNewlines b1 @ x @ reNewlines b2" for b1 b2
    using _ _ assms
  proof (rule split_pass)
    fix b1 c r assume "neutral c"
    then have "\<not> (\<lambda>c. c = LF) c" by (auto simp: neutral_def isSpace_def)
    then show "reNewlines (b1 @ c # r) = reNewlines b1 @ reNewlines (c # r)"
      unfolding reNewlines_def by (rule collapse_S1)
  next
    fix c r assume "neutral c"
    then have "\<not> (\<lambda>c. c = LF) c" by (auto simp: neutral_def isSpace_def)
    then show "reNewlines (c # r) = c # reNewlines r"
      unfolding reNewlines_def by (rule collapse_S2)
  qed
  have 3: "reSpaces (b1 @ x @ b2) = reSpaces b1 @ x @ reSpaces b2" for b1 b2
    using _ _ assms
  proof (rule split_pass)
    fix b1 c r assume "neutral c"
    then have "\<not> (\<lambda>c. c = CHR '' '' \<or> c = TAB) c" by (auto simp: neutral_def isSpace_def)
    then show "reSpaces (b1 @ c # r) = reSpaces b1 @ reSpaces (c # r)"
      unfolding reSpaces_def by (rule collapse_S1)
  next
    fix c r assume "neutral c"
    then have "\<not> (\<lambda>c. c = CHR '' '' \<or> c = TAB) c" by (auto simp: neutral_def isSpace_def)
    then show "reSpaces (c # r) = c # reSpaces r"
      unfolding reSpaces_def by (rule collapse_S2)
  qed
  have 4: "reSpaceBeforePunct (b1 @ x @ b2) = reSpaceBeforePunct b1 @ x @ reSpaceBeforePunct b2"
    for b1 b2
    using _ _ assms
  proof (rule split_pass)
    fix b1 c r assume "neutral c"
    then show "reSpaceBeforePunct (b1 @ c # r) = reSpaceBeforePunct b1 @ reSpaceBeforePunct (c # r)"
      by (intro reSBP_S1) (simp_all add: neutral_def)
  next
    fix c r assume "neutral c"
    then show "reSpaceBeforePunct (c # r) = c # reSpaceBeforePunct r"
      by (intro reSBP_S2) (simp add: neutral_def)
  qed
  show ?thesis by (simp only: rtf_normalize_eq 1 2 3 4)
qed


lemma extractRTF_plain:
  "rtf_loop data rtf_init = Some f \<Longrightarrow> \<not> utf16_marked (rtf_normalize (rtf_b f))
   \<Longrightarrow> extractRTF data = (rtf_normalize (rtf_b f), None)"
  by (auto simp: extractRTF_def Let_def utf16_marked_def)

lemma high_byte_neutral:
  assumes "128 \<le> k" and "k < 256"
  shows "neutral (char_of (k::int))"
proof -
  have "(of_char (char_of k) :: nat) = nat k"
    using assms by (intro of_char_char_of_nat) simp_all
  with assms have "128 \<le> (of_char (char_of k) :: nat)" by simp
  moreover have "(of_char c :: nat) < 128" if "\<not> neutral c" for c
    using that by (auto simp: neutral_def isSpace_def isPunct_def)
  ultimately show ?thesis by fastforce
qed

lemma cont_byte_neutral: "neutral (char_of (0x80 + (m::int) mod 64))"
proof -
  have "0 \<le> m mod 64" "m mod 64 < 64" by simp_all
  then show ?thesis by (intro high_byte_neutral) linarith+
qed

lemma EncodeRune_neutral:
  assumes "0x80 \<le> N"
  shows "list_all neutral (EncodeRune N)"
proof -
  have e: "neutral (CHR 0xEF)" "neutral (CHR 0xBF)" "neutral (CHR 0xBD)"
    by (simp_all add: neutral_def isSpace_def isPunct_def)
  have 2: "neutral (char_of (0xC0 + N div 64))" if "N \<le> 0x7FF"
  proof -
    have "N div 64 \<le> 0x7FF div 64" using that by (intro zdiv_mono1) simp_all
    moreover have "0x80 div 64 \<le> N div 64" using assms by (intro zdiv_mono1) simp_all
    ultimately show ?thesis by (intro high_byte_neutral) simp_all
  qed
  have 3: "neutral (char_of (0xE0 + N div 4096))" if "N \<le> 0xFFFF"
  proof -
    have "N div 4096 \<le> 0xFFFF div 4096" using that by (intro zdiv_mono1) simp_all
    moreover have "0x80 div 4096 \<le> N div 4096" using assms by (intro zdiv_mono1) simp_all
    ultimately show ?thesis by (intro high_byte_neutral) simp_all
  qed
  have 4: "neutral (char_of (0xF0 + N div 262144))" if "N \<le> 0x10FFFF"
  proof -
    have "N div 262144 \<le> 0x10FFFF div 262144" using that by (intro zdiv_mono1) simp_all
    moreover have "0x80 div 262144 \<le> N div 262144" using assms by (intro zdiv_mono1) simp_all
    ultimately show ?thesis by (intro high_byte_neutral) simp_all
  qed
  from assms e 2 3 4 cont_byte_neutral show ?thesis
    by (simp add: EncodeRune_def)
qed


lemma space_escape_result: "extractRTF ([BSL] @ ''u32?,'') = ('','', None)"
  by code_simp

lemma overflow_escape_result:
  "extractRTF ([BSL] @ ''u9223372036854775808?'') = (''?'', None)"
  by code_simp

text \<open>
  Claim C6, as stated: wherever \<open>\u9472?\<close> stands outside a skipped group, the
  output holds U+2500 there; and \<open>\uN\<close> emits the code point \<open>N\<close>. Behind the
  bytes \<open>FF FE\<close>, written by \<open>\'ff\'fe\<close>, the escape is read with the skip marker
  clear, yet the buffer \<open>FF FE E2 94 80\<close> is not valid UTF-8 and starts with a
  byte-order mark, so it is decoded as UTF-16 and the result is the one rune U+94E2.
  And \<open>N = 55357\<close>, a surrogate, is written as U+FFFD. The space written for
  \<open>N = 32\<close> in front of a comma is removed by the pass after the loop, so that the
  output of \<open>\u32?,\<close> is the comma alone. And the digits of \<open>2^63\<close> are no value that
  \<open>strconv.Atoi\<close> accepts: nothing is written for \<open>\u9223372036854775808?\<close>, and
  its \<open>?\<close> is not passed over but copied to the output.
\<close>

theorem unicode_escape_counterexample:
  "rtf_run 2 ([BSL, CHR 0x27] @ ''ff'' @ [BSL, CHR 0x27] @ ''fe'' @ [BSL] @ ''u9472?'') rtf_init
     = Some \<lparr>rtf_i = 8, depth = 0, skipUntilDepth = - 1, rtf_b = [CHR 0xFF, CHR 0xFE]\<rparr>
   \<and> drop 8 ([BSL, CHR 0x27] @ ''ff'' @ [BSL, CHR 0x27] @ ''fe'' @ [BSL] @ ''u9472?'')
     = [BSL] @ ''u9472?''
   \<and> extractRTF ([BSL, CHR 0x27] @ ''ff'' @ [BSL, CHR 0x27] @ ''fe'' @ [BSL] @ ''u9472?'')
     = ([CHR 0xE9, CHR 0x93, CHR 0xA2], None)
   \<and> runes_of [CHR 0xE9, CHR 0x93, CHR 0xA2] = [0x94E2]
   \<and> extractRTF ([BSL] @ ''u55357?'') = ([CHR 0xEF, CHR 0xBF, CHR 0xBD], None)
   \<and> runes_of [CHR 0xEF, CHR 0xBF, CHR 0xBD] = [0xFFFD]
   \<and> extractRTF ([BSL] @ ''u32?,'') = ('','', None)
   \<and> extractRTF ([BSL] @ ''u9223372036854775808?'') = (''?'', None)"
proof -
  have d: "drop 8 ([BSL, CHR 0x27] @ ''ff'' @ [BSL, CHR 0x27] @ ''fe'' @ [BSL] @ ''u9472?'')
     = [BSL] @ ''u9472?''"
    by simp
  show ?thesis
    apply (rule conjI, rule bom_escape_state)
    apply (rule conjI, rule d)
    apply (rule conjI, rule bom_escape_result)
    apply (rule conjI, rule bom_escape_runes)
    apply (rule conjI, rule surrogate_escape_result)
    apply (rule conjI, rule RuneError_runes)
    apply (rule conjI, rule space_escape_result)
    apply (rule overflow_escape_result)
    done
qed

text \<open>
  Claim C6, amended. Let the tokenizer stand with the skip marker clear at \<open>\u\<close>
  followed by the decimal digits of a Unicode scalar value \<open>N\<close> (at most \<open>0x10FFFF\<close>,
  no surrogate). The round appends the UTF-8 form of the code point \<open>N\<close> to the buffer,
  leaves depth and skip marker alone, and passes over a \<open>?\<close> that follows the digits
  (and over the space that ends a control word) without writing it. The loop goes on
  behind the escape and ends with the buffer \<open>before @ N @ after\<close>: what was written
  before the escape, the code point, and what the rest of the run writes. If the state
  is one that the run on this input reaches, this is the final buffer of the run, and
  the text returned is the normalized final buffer, unless that is not valid UTF-8 and
  starts with a byte-order mark (then it is decoded anew as UTF-16). If no byte of the
  code point is white space or one of \<open>, . : ; ! ?\<close>, as for every \<open>N\<close> from
  \<open>0x80\<close> on, then the normalized buffer is \<open>normalized before @ N @ normalized
  after\<close>: the code point stands in the output. For \<open>a\u9472?b\<close> the output is
  \<open>a\<close>, U+2500, \<open>b\<close>, with no \<open>?\<close>.
\<close>

theorem unicode_escape:
  assumes skip: "skipUntilDepth s < 0"
    and at: "drop (rtf_i s) data = BSL # CHR ''u'' # ds @ rest"
    and ds: "ds \<noteq> []" "list_all isDigit ds" and rest: "rest = [] \<or> \<not> isDigit (hd rest)"
    and N: "dec_value ds = N" "ValidRune N"
  shows "\<exists>s' f b2. rtf_step data s = Some s'
           \<and> rtf_b s' = rtf_b s @ EncodeRune N \<and> runes_of (EncodeRune N) = [N]
           \<and> depth s' = depth s \<and> skipUntilDepth s' = skipUntilDepth s
           \<and> drop (rtf_i s') data = after_escape rest
           \<and> rtf_loop data s' = Some f \<and> rtf_b f = rtf_b s @ EncodeRune N @ b2
           \<and> (reach data s \<longrightarrow> rtf_loop data rtf_init = Some f)
           \<and> (reach data s \<and> \<not> utf16_marked (rtf_normalize (rtf_b f)) \<longrightarrow>
                extractRTF data = (rtf_normalize (rtf_b s @ EncodeRune N @ b2), None))
           \<and> (list_all neutral (EncodeRune N) \<longrightarrow>
                rtf_normalize (rtf_b s @ EncodeRune N @ b2)
                  = rtf_normalize (rtf_b s) @ EncodeRune N @ rtf_normalize b2)
           \<and> (0x80 \<le> N \<longrightarrow> list_all neutral (EncodeRune N))"
proof -
  let ?s1 = "s\<lparr>rtf_i := rtf_i s + 1\<rparr>"
  from N have v: "Atoi ds = Some N"
    using Atoi_digits [OF ds] by (simp add: ValidRune_def)
  from N have i32: "int32 N = N"
    by (simp add: int32_def ValidRune_def)
  have i0: "idx data (rtf_i s) = Some BSL" using at by (rule idx_drop)
  have i: "rtf_i s < length data" using at by (rule drop_ConsD(1))
  have d1: "drop (Suc (rtf_i s)) data = CHR ''u'' # ds @ rest"
    using at by (rule drop_ConsD(3))
  have i1: "idx data (Suc (rtf_i s)) = Some (CHR ''u'')" using d1 by (rule idx_drop)
  have len: "\<not> length data \<le> Suc (rtf_i s)"
    using drop_ConsD(1) [OF d1] by simp
  have st: "rtf_step data s = control_word data ?s1"
    using len by (simp add: rtf_step_def i0 i1 Let_def isLetter_def)
  have rn: "runes_of (EncodeRune N) = [N]"
    using runes_of_EncodeRune [OF N(2), of "[]"] by (simp add: runes_of_Nil)
  from control_word_u [of ?s1 data ds rest N] d1 ds rest v skip
  obtain s' where cw: "control_word data ?s1 = Some s'"
    and b: "rtf_b s' = rtf_b s @ EncodeRune (int32 N)" and d: "depth s' = depth s"
    and k: "skipUntilDepth s' = skipUntilDepth s" and a: "drop (rtf_i s') data = after_escape rest"
    by auto
  from cw st have step: "rtf_step data s = Some s'" by simp
  from b i32 have b': "rtf_b s' = rtf_b s @ EncodeRune N" by simp
  from rtf_loop_ok [of data s'] obtain f where f: "rtf_loop data s' = Some f" by auto
  from rtf_loop_grow [OF f] b' obtain b2 where b2: "rtf_b f = rtf_b s @ EncodeRune N @ b2"
    by auto
  have init: "rtf_loop data rtf_init = Some f" if "reach data s"
  proof -
    from that i step have "reach data s'" by (rule reach_step)
    from reach_loop [OF this] f show ?thesis by simp
  qed
  have out: "extractRTF data = (rtf_normalize (rtf_b s @ EncodeRune N @ b2), None)"
    if "reach data s" and "\<not> utf16_marked (rtf_normalize (rtf_b f))"
    using extractRTF_plain [OF init [OF that(1)] that(2)] b2 by simp
  have split: "rtf_normalize (rtf_b s @ EncodeRune N @ b2)
                  = rtf_normalize (rtf_b s) @ EncodeRune N @ rtf_normalize b2"
    if "list_all neutral (EncodeRune N)"
    using EncodeRune_nonempty that by (rule rtf_normalize_split)
  have hi: "list_all neutral (EncodeRune N)" if "0x80 \<le> N"
    using that by (rule EncodeRune_neutral)
  from step b' rn d k a f b2 init out split hi show ?thesis by blast
qed

theorem unicode_escape_witness:
  "reach (''a'' @ [BSL] @ ''u9472?b'') \<lparr>rtf_i = 1, depth = 0, skipUntilDepth = - 1, rtf_b = ''a''\<rparr>
   \<and> drop 1 (''a'' @ [BSL] @ ''u9472?b'') = BSL # CHR ''u'' # ''9472'' @ ''?b''
   \<and> dec_value ''9472'' = 0x2500 \<and> ValidRune 0x2500
   \<and> EncodeRune 0x2500 = [CHR 0xE2, CHR 0x94, CHR 0x80]
   \<and> list_all neutral [CHR 0xE2, CHR 0x94, CHR 0x80]
   \<and> after_escape ''?b'' = ''b''
   \<and> rtf_step (''a'' @ [BSL] @ ''u9472?b'')
         \<lparr>rtf_i = 1, depth = 0, skipUntilDepth = - 1, rtf_b = ''a''\<rparr>
       = Some \<lparr>rtf_i = 8, depth = 0, skipUntilDepth = - 1,
                rtf_b = [CHR ''a'', CHR 0xE2, CHR 0x94, CHR 0x80]\<rparr>
   \<and> \<not> utf16_marked [CHR ''a'', CHR 0xE2, CHR 0x94, CHR 0x80, CHR ''b'']
   \<and> extractRTF (''a'' @ [BSL] @ ''u9472?b'')
       = ([CHR ''a'', CHR 0xE2, CHR 0x94, CHR 0x80, CHR ''b''], None)
   \<and> runes_of [CHR ''a'', CHR 0xE2, CHR 0x94, CHR 0x80, CHR ''b''] = [0x61, 0x2500, 0x62]"
proof -
  let ?data = "''a'' @ [BSL] @ ''u9472?b''"
  let ?s = "\<lparr>rtf_i = 1, depth = 0, skipUntilDepth = - 1, rtf_b = ''a''\<rparr>"
  let ?s' = "\<lparr>rtf_i = 8, depth = 0, skipUntilDepth = - 1,
                rtf_b = [CHR ''a'', CHR 0xE2, CHR 0x94, CHR 0x80]\<rparr>"
  let ?f = "\<lparr>rtf_i = 9, depth = 0, skipUntilDepth = - 1,
                rtf_b = [CHR ''a'', CHR 0xE2, CHR 0x94, CHR 0x80, CHR ''b'']\<rparr>"
  have "rtf_run 1 ?data rtf_init = Some ?s" by code_simp
  with reach_init have r: "reach ?data ?s" by (rule reach_run)
  have 1: "skipUntilDepth ?s < 0" by simp
  have 2: "drop (rtf_i ?s) ?data = BSL # CHR ''u'' # ''9472'' @ ''?b''" by simp
  have dr: "drop 1 ?data = BSL # CHR ''u'' # ''9472'' @ ''?b''" by simp
  have 3: "''9472'' \<noteq> []" "list_all isDigit ''9472''" "''?b'' = [] \<or> \<not> isDigit (hd ''?b'')"
    by (simp_all add: isDigit_def)
  have 4: "dec_value ''9472'' = 0x2500" by (simp add: dec_value_def)
  have 5: "ValidRune 0x2500" by (simp add: ValidRune_def)
  have 6: "EncodeRune 0x2500 = [CHR 0xE2, CHR 0x94, CHR 0x80]" by code_simp
  have 7: "after_escape ''?b'' = ''b''" by (simp add: after_escape_def)
  have 8: "list_all neutral [CHR 0xE2, CHR 0x94, CHR 0x80]"
    by (simp add: neutral_def isSpace_def isPunct_def)
  have st: "rtf_step ?data ?s = Some ?s'" by code_simp
  have lp: "rtf_loop ?data ?s' = Some ?f" by code_simp
  have nm: "rtf_normalize [CHR ''a'', CHR 0xE2, CHR 0x94, CHR 0x80, CHR ''b'']
              = [CHR ''a'', CHR 0xE2, CHR 0x94, CHR 0x80, CHR ''b'']"
    by code_simp
  have um: "\<not> utf16_marked [CHR ''a'', CHR 0xE2, CHR 0x94, CHR 0x80, CHR ''b'']"
    by (simp add: utf16_marked_def)
  have rn: "runes_of [CHR ''a'', CHR 0xE2, CHR 0x94, CHR 0x80, CHR ''b''] = [0x61, 0x2500, 0x62]"
    by code_simp
  from unicode_escape [OF 1 2 3 4 5]
  obtain s' f b2 where s': "rtf_step ?data ?s = Some s'"
    and f: "rtf_loop ?data s' = Some f"
    and b2: "rtf_b f = rtf_b ?s @ EncodeRune 0x2500 @ b2"
    and out: "reach ?data ?s \<and> \<not> utf16_marked (rtf_normalize (rtf_b f)) \<longrightarrow>
                extractRTF ?data = (rtf_normalize (rtf_b ?s @ EncodeRune 0x2500 @ b2), None)"
    by blast
  from s' st have "s' = ?s'" by simp
  with f lp have "f = ?f" by simp
  then have bf: "rtf_b f = [CHR ''a'', CHR 0xE2, CHR 0x94, CHR 0x80, CHR ''b'']" by simp
  from um have "\<not> utf16_marked (rtf_normalize (rtf_b f))" unfolding bf nm .
  with out r have "extractRTF ?data = (rtf_normalize (rtf_b ?s @ EncodeRune 0x2500 @ b2), None)"
    by blast
  then have ex: "extractRTF ?data = ([CHR ''a'', CHR 0xE2, CHR 0x94, CHR 0x80, CHR ''b''], None)"
    unfolding b2 [symmetric] bf nm .
  from r dr 4 5 6 8 7 st um ex rn show ?thesis by (intro conjI)
qed

section \<open>The TXT extractor: the scored fallback\<close>

lemma score_fold:
  "foldl score_step (cyr, asciiPrint, repl, ctrl) rs =
     (cyr + int (length (filter isCyrillic rs)),
      asciiPrint + int (length (filter isPrintableASCII rs)),
      repl + int (length (filter (\<lambda>r. r = 0xFFFD) rs)),
      ctrl + int (length (filter isOtherControl rs)))"
  by (induction rs arbitrary: cyr asciiPrint repl ctrl)
     (auto simp: isCyrillic_def isPrintableASCII_def isOtherControl_def)

lemma scoreCyrillicText_spec:
  "s \<noteq> [] \<Longrightarrow> scoreCyrillicText s = score_spec (runes_of s)"
  by (simp add: scoreCyrillicText_def score_fold score_spec_def)

lemma score_spec_append: "score_spec (xs @ ys) = score_spec xs + score_spec ys"
  by (simp add: score_spec_def)

lemma score_spec_ctrl: "score_spec (replicate n 1) = - 5 * int n"
  by (simp add: score_spec_def isCyrillic_def isPrintableASCII_def isOtherControl_def)

lemma score_spec_single: "score_spec [r] \<le> 3"
  by (simp add: score_spec_def isCyrillic_def isPrintableASCII_def isOtherControl_def)

lemma first_01: "first (CHR 0x01) = AS"
  by (simp add: first_def)

lemma utf8_Valid_ctrl: "utf8_Valid (replicate n (CHR 0x01) @ t) = utf8_Valid t"
proof (induction n)
  case 0
  show ?case by simp
next
  case (Suc n)
  have "utf8_Valid (CHR 0x01 # replicate n (CHR 0x01) @ t) = utf8_Valid (replicate n (CHR 0x01) @ t)"
    by (subst utf8_Valid.simps) (simp add: first_01)
  with Suc show ?case by simp
qed

lemma utf8_Valid_C0: "\<not> utf8_Valid [CHR 0xC0]"
  by code_simp

lemma runes_of_ctrl: "runes_of (replicate n (CHR 0x01) @ t) = replicate n 1 @ runes_of t"
proof (induction n)
  case 0
  show ?case by simp
next
  case (Suc n)
  have "DecodeRune (CHR 0x01 # replicate n (CHR 0x01) @ t) = (1, 1)"
    by (simp add: DecodeRune_def first_01)
  then have "runes_of (CHR 0x01 # replicate n (CHR 0x01) @ t)
             = 1 # runes_of (replicate n (CHR 0x01) @ t)"
    by (subst runes_of.simps) simp
  with Suc show ?case by simp
qed

lemma EncodeRune_invalid: "\<not> ValidRune r \<Longrightarrow> EncodeRune r = [CHR 0xEF, CHR 0xBF, CHR 0xBD]"
  by (auto simp: EncodeRune_def ValidRune_def)

lemma runes_of_EncodeRune_any: "\<exists>r'. runes_of (EncodeRune r) = [r']"
proof (cases "ValidRune r")
  case True
  then show ?thesis using runes_of_EncodeRune [of r "[]"] by (simp add: runes_of_Nil)
next
  case False
  then show ?thesis by (simp add: EncodeRune_invalid RuneError_runes)
qed

lemma concat_ctrl:
  "concat (map f (replicate n c)) = concat (replicate n (f c))"
  by (induction n) simp_all

lemma concat_replicate_single: "concat (replicate n [c]) = replicate n c"
  by (induction n) simp_all

lemma charmap_ReadAll_ctrl:
  "charmap_ReadAll enc (replicate n (CHR 0x01) @ [CHR 0xC0])
     = (replicate n (CHR 0x01) @ EncodeRune (enc (CHR 0xC0)), None)"
  by (simp add: charmap_ReadAll_def concat_ctrl concat_replicate_single)

lemma candidate_score:
  "scoreCyrillicText (fst (charmap_ReadAll enc (replicate n (CHR 0x01) @ [CHR 0xC0])))
     \<le> 3 - 5 * int n"
proof -
  obtain r' where r': "runes_of (EncodeRune (enc (CHR 0xC0))) = [r']"
    using runes_of_EncodeRune_any by blast
  have "replicate n (CHR 0x01) @ EncodeRune (enc (CHR 0xC0)) \<noteq> []"
    by (simp add: EncodeRune_nonempty)
  then have "scoreCyrillicText (replicate n (CHR 0x01) @ EncodeRune (enc (CHR 0xC0)))
      = score_spec (runes_of (replicate n (CHR 0x01) @ EncodeRune (enc (CHR 0xC0))))"
    by (rule scoreCyrillicText_spec)
  also have "\<dots> = score_spec (replicate n 1 @ [r'])"
    by (simp only: runes_of_ctrl r')
  also have "\<dots> = - 5 * int n + score_spec [r']"
    by (simp only: score_spec_append score_spec_ctrl)
  also have "\<dots> \<le> 3 - 5 * int n"
    using score_spec_single [of r'] by simp
  finally show ?thesis by (simp add: charmap_ReadAll_ctrl)
qed

lemma best_step_keep:
  "scoreCyrillicText (fst (charmap_ReadAll (snd c) data)) \<le> snd best
   \<Longrightarrow> best_step data best c = best"
  by (simp add: best_step_def charmap_ReadAll_def Let_def)

lemma best_fold_keep:
  "list_all (\<lambda>c. scoreCyrillicText (fst (charmap_ReadAll (snd c) data)) \<le> snd best) cs
   \<Longrightarrow> foldl (best_step data) best cs = best"
  by (induction cs) (simp_all add: best_step_keep)

lemma best_by_Cons:
  "ts \<noteq> [] \<Longrightarrow> best_by f (t # ts) = (if f (best_by f ts) > f t then best_by f ts else t)"
  by (cases ts) simp_all

lemma best_by_mem: "ts \<noteq> [] \<Longrightarrow> best_by f ts \<in> set ts"
  by (induction f ts rule: best_by.induct) auto

lemma best_by_cong: "\<forall>t\<in>set ts. f t = g t \<Longrightarrow> best_by f ts = best_by g ts"
proof (induction ts)
  case Nil
  show ?case by simp
next
  case (Cons t ts)
  show ?case
  proof (cases "ts = []")
    case True
    then show ?thesis by simp
  next
    case False
    from Cons have e: "best_by f ts = best_by g ts" by simp
    from best_by_mem [OF False, of g] Cons.prems have "f (best_by g ts) = g (best_by g ts)"
      by simp
    with e Cons.prems show ?thesis by (simp add: best_by_Cons [OF False])
  qed
qed

lemma best_fold:
  "foldl (best_step data) (bt, bs) cs =
     (if cs = [] \<or> scoreCyrillicText (best_by scoreCyrillicText (map (\<lambda>c. fst (charmap_ReadAll (snd c) data)) cs)) \<le> bs
      then (bt, bs)
      else (best_by scoreCyrillicText (map (\<lambda>c. fst (charmap_ReadAll (snd c) data)) cs),
            scoreCyrillicText (best_by scoreCyrillicText (map (\<lambda>c. fst (charmap_ReadAll (snd c) data)) cs))))"
proof (induction cs arbitrary: bt bs)
  case Nil
  show ?case by simp
next
  case (Cons c cs)
  let ?t = "fst (charmap_ReadAll (snd c) data)"
  let ?ts = "map (\<lambda>c. fst (charmap_ReadAll (snd c) data)) cs"
  have step: "best_step data (bt, bs) c
              = (if scoreCyrillicText ?t > bs then (?t, scoreCyrillicText ?t) else (bt, bs))"
    by (simp add: best_step_def charmap_ReadAll_def Let_def)
  show ?case
  proof (cases cs)
    case Nil
    then show ?thesis by (simp add: step)
  next
    case (Cons d ds)
    then have ne: "?ts \<noteq> []" "cs \<noteq> []" by simp_all
    show ?thesis
      using Cons.IH [of ?t "scoreCyrillicText ?t"] Cons.IH [of bt bs] ne
      by (simp add: step best_by_Cons [OF ne(1)])
  qed
qed

lemma charmap_ReadAll_nonempty: "data \<noteq> [] \<Longrightarrow> fst (charmap_ReadAll enc data) \<noteq> []"
  by (cases data) (auto simp: charmap_ReadAll_def EncodeRune_nonempty)

lemma candidate_texts_nonempty:
  "data \<noteq> [] \<Longrightarrow> t \<in> set (candidate_texts E data) \<Longrightarrow> t \<noteq> []"
  using charmap_ReadAll_nonempty [of data] by (auto simp: candidate_texts_def)

lemma candidate_texts_score:
  "data \<noteq> [] \<Longrightarrow> t \<in> set (candidate_texts E data) \<Longrightarrow> scoreCyrillicText t = spec_score t"
  using candidate_texts_nonempty [of data t E] by (simp add: scoreCyrillicText_spec spec_score_def)

lemma best_by_spec:
  assumes "data \<noteq> []"
  shows "best_by scoreCyrillicText (candidate_texts E data)
           = best_by spec_score (candidate_texts E data)"
  using candidate_texts_score [OF assms] by (intro best_by_cong) blast

lemma utf8_Valid_Nil: "utf8_Valid []"
  by (subst utf8_Valid.simps) simp

lemma extractTXT_scored:
  assumes bom: "\<not> HasPrefix data [CHR 0xFF, CHR 0xFE]" "\<not> HasPrefix data [CHR 0xFE, CHR 0xFF]"
    and inv: "\<not> utf8_Valid data"
    and sc: "- 2147483648 < spec_score (best_by spec_score (candidate_texts E data))"
  shows "extractTXT E data = (scored_fallback_spec E data, None)"
proof -
  have a: "\<not> (length data \<ge> 2 \<and> data ! 0 = CHR 0xFF \<and> data ! Suc 0 = CHR 0xFE)"
    using bom(1) by (cases data; cases "tl data") (auto simp: HasPrefix_def)
  have b: "\<not> (length data \<ge> 2 \<and> data ! 0 = CHR 0xFE \<and> data ! Suc 0 = CHR 0xFF)"
    using bom(2) by (cases data; cases "tl data") (auto simp: HasPrefix_def)
  from inv have ne: "data \<noteq> []" using utf8_Valid_Nil by auto
  let ?best = "best_by spec_score (candidate_texts E data)"
  have cne: "candidates E \<noteq> []" by (simp add: candidates_def)
  then have tne: "candidate_texts E data \<noteq> []" by (simp add: candidate_texts_def)
  then have mem: "?best \<in> set (candidate_texts E data)" by (rule best_by_mem)
  then have bne: "?best \<noteq> []" using candidate_texts_nonempty [OF ne] by blast
  have eq: "best_by scoreCyrillicText (candidate_texts E data) = ?best"
    using ne by (rule best_by_spec)
  have sc': "- 2147483648 < scoreCyrillicText ?best"
    using sc candidate_texts_score [OF ne mem] by simp
  have f: "foldl (best_step data) ([], - 2147483648) (candidates E)
           = (?best, scoreCyrillicText ?best)"
    using sc' cne eq by (simp add: best_fold candidate_texts_def)
  have d: "decodeBestCyrillic E data
           = (if ContainsRuneError ?best then ([], False) else (?best, True))"
    using bne by (simp add: decodeBestCyrillic_def f Let_def)
  show ?thesis
    using a b
    by (auto simp: extractTXT_def inv d scored_fallback_spec_def latin1_def Let_def
          ContainsRuneError_def normalize_newlines_eq)
qed

lemma best_by_first:
  assumes "\<forall>t\<in>set ts. f t \<le> f w"
  shows "best_by f (w # ts) = w"
proof (cases ts)
  case Nil
  then show ?thesis by simp
next
  case (Cons a as)
  then have ne: "ts \<noteq> []" by simp
  from best_by_mem [OF ne, of f] assms have "f (best_by f ts) \<le> f w"
    by blast
  then show ?thesis by (simp add: best_by_Cons [OF ne])
qed

lemma sentinel_not_bom:
  "\<not> HasPrefix (replicate n (CHR 0x01) @ [CHR 0xC0]) [CHR 0xFF, CHR 0xFE]
   \<and> \<not> HasPrefix (replicate n (CHR 0x01) @ [CHR 0xC0]) [CHR 0xFE, CHR 0xFF]"
  by (cases n) (simp_all add: HasPrefix_def)

lemma sentinel_invalid: "\<not> utf8_Valid (replicate n (CHR 0x01) @ [CHR 0xC0])"
  by (simp add: utf8_Valid_ctrl utf8_Valid_C0)

lemma sentinel_best:
  assumes w: "Windows1251 E (CHR 0xC0) = 0x0410"
  shows "best_by spec_score (candidate_texts E (replicate n (CHR 0x01) @ [CHR 0xC0]))
           = replicate n (CHR 0x01) @ [CHR 0xD0, CHR 0x90]"
    and "spec_score (replicate n (CHR 0x01) @ [CHR 0xD0, CHR 0x90]) = 3 - 5 * int n"
    and "RuneError \<notin> set (runes_of (replicate n (CHR 0x01) @ [CHR 0xD0, CHR 0x90]))"
proof -
  let ?D = "replicate n (CHR 0x01) @ [CHR 0xC0]"
  let ?w = "replicate n (CHR 0x01) @ [CHR 0xD0, CHR 0x90]"
  have ne: "?D \<noteq> []" by simp
  have e: "EncodeRune 0x0410 = [CHR 0xD0, CHR 0x90]" by code_simp
  have r: "runes_of [CHR 0xD0, CHR 0x90] = [0x0410]" by code_simp
  have rw: "runes_of ?w = replicate n 1 @ [0x0410]"
    by (simp only: runes_of_ctrl r)
  have "spec_score ?w = - 5 * int n + score_spec [0x0410]"
    by (simp only: spec_score_def rw score_spec_append score_spec_ctrl)
  also have "score_spec [0x0410] = 3"
    by (simp add: score_spec_def isCyrillic_def isPrintableASCII_def isOtherControl_def)
  finally show sw: "spec_score ?w = 3 - 5 * int n" by simp
  show "RuneError \<notin> set (runes_of ?w)" unfolding rw by (auto simp: RuneError_def)
  have "?w \<noteq> []" by simp
  then have sw': "scoreCyrillicText ?w = 3 - 5 * int n"
    using sw by (simp add: scoreCyrillicText_spec spec_score_def)
  have t: "fst (charmap_ReadAll (Windows1251 E) ?D) = ?w"
    by (simp only: charmap_ReadAll_ctrl w e fst_conv)
  have ct: "candidate_texts E ?D
        = ?w # map (\<lambda>c. fst (charmap_ReadAll (snd c) ?D))
                 [(''koi8-r'', KOI8R E), (''iso-8859-5'', ISO8859_5 E),
                  (''mac-cyrillic'', MacintoshCyrillic E), (''cp866'', CodePage866 E)]"
    by (simp add: candidate_texts_def candidates_def t)
  have "\<forall>t\<in>set (map (\<lambda>c. fst (charmap_ReadAll (snd c) ?D))
                 [(''koi8-r'', KOI8R E), (''iso-8859-5'', ISO8859_5 E),
                  (''mac-cyrillic'', MacintoshCyrillic E), (''cp866'', CodePage866 E)]).
          scoreCyrillicText t \<le> scoreCyrillicText ?w"
    using candidate_score [of _ n] by (auto simp: sw')
  then have "best_by scoreCyrillicText (candidate_texts E ?D) = ?w"
    unfolding ct by (rule best_by_first)
  with best_by_spec [OF ne, of E] show "best_by spec_score (candidate_texts E ?D) = ?w"
    by simp
qed

lemma sentinel_spec:
  assumes w: "Windows1251 E (CHR 0xC0) = 0x0410"
  shows "scored_fallback_spec E (replicate n (CHR 0x01) @ [CHR 0xC0])
           = replicate n (CHR 0x01) @ [CHR 0xD0, CHR 0x90]"
proof -
  let ?w = "replicate n (CHR 0x01) @ [CHR 0xD0, CHR 0x90]"
  have "CR \<notin> set ?w" by auto
  then have "crlf_to_lf ?w = ?w" by (rule crlf_to_lf_id)
  with sentinel_best(1,3) [OF w, of n] show ?thesis
    by (simp add: scored_fallback_spec_def Let_def)
qed

lemma decodeBestCyrillic_sentinel:
  assumes "2147483651 \<le> 5 * int n"
  shows "decodeBestCyrillic E (replicate n (CHR 0x01) @ [CHR 0xC0]) = ([], False)"
proof -
  let ?D = "replicate n (CHR 0x01) @ [CHR 0xC0]"
  have "scoreCyrillicText (fst (charmap_ReadAll enc ?D)) \<le> - 2147483648" for enc
    using candidate_score [of enc n] assms by linarith
  then have "list_all (\<lambda>c. scoreCyrillicText (fst (charmap_ReadAll (snd c) ?D))
                     \<le> snd ([] :: string, - 2147483648 :: int)) (candidates E)"
    by (simp add: candidates_def)
  then have "foldl (best_step ?D) ([], - 2147483648) (candidates E) = ([], - 2147483648)"
    by (rule best_fold_keep)
  then show ?thesis by (simp add: decodeBestCyrillic_def)
qed

lemma latin1_sentinel:
  "string_of_runes (map (\<lambda>by. of_char by) (replicate n (CHR 0x01) @ [CHR 0xC0]))
     = replicate n (CHR 0x01) @ [CHR 0xC3, CHR 0x80]"
proof -
  have 1: "EncodeRune 1 = [CHR 0x01]" by code_simp
  have 2: "EncodeRune 192 = [CHR 0xC3, CHR 0x80]" by code_simp
  show ?thesis by (induction n) (simp_all add: string_of_runes_def 1 2)
qed

lemma latin1_sentinel_runes:
  "string_of_runes (replicate n 1 @ [192]) = replicate n (CHR 0x01) @ [CHR 0xC3, CHR 0x80]"
proof -
  have 1: "EncodeRune 1 = [CHR 0x01]" by code_simp
  have 2: "EncodeRune 192 = [CHR 0xC3, CHR 0x80]" by code_simp
  show ?thesis by (induction n) (simp_all add: string_of_runes_def 1 2)
qed

lemma extractTXT_sentinel_n:
  assumes "2147483651 \<le> 5 * int n"
  shows "extractTXT E (replicate n (CHR 0x01) @ [CHR 0xC0])
     = (replicate n (CHR 0x01) @ [CHR 0xC3, CHR 0x80], None)"
proof -
  let ?D = "replicate n (CHR 0x01) @ [CHR 0xC0]"
  let ?out = "replicate n (CHR 0x01) @ [CHR 0xC3, CHR 0x80]"
  from assms have n: "0 < n" by (cases n) simp_all
  then have a: "?D ! 0 = CHR 0x01" by (cases n) simp_all
  have "CR \<notin> set ?out" by auto
  then have "crlf_to_lf ?out = ?out" by (rule crlf_to_lf_id)
  then have nn: "normalize_newlines ?out = ?out" by (simp only: normalize_newlines_eq)
  show ?thesis
    by (simp add: extractTXT_def a sentinel_invalid decodeBestCyrillic_sentinel [OF assms]
          latin1_sentinel latin1_sentinel_runes nn)
qed

text \<open>
  Claim C1, at an input on which the code does not select the highest-scoring
  candidate. The input is 429496731 bytes \<open>01\<close> followed by the byte \<open>C0\<close>: no
  byte-order mark, not valid UTF-8. Every control byte costs 5 points, so that every
  trial decoding scores at most \<open>3 - 5 * 429496731 = -2147483652\<close>, which is below
  the start value \<open>int(-1 << 31) = -2147483648\<close> of \<open>bestScore\<close>: the loop over the
  candidates selects none of them, \<open>bestText\<close> stays empty, and the extractor returns
  the byte-to-code-point mapping, which ends in \<open>C3 80\<close> (U+00C0). Where
  Windows-1251 decodes \<open>C0\<close> to U+0410, as the table of the library does, the
  highest-scoring candidate is the Windows-1251 text, which ends in \<open>D0 90\<close> and holds no
  U+FFFD, and it is what the scored fallback of the specification returns.
\<close>

theorem extractTXT_sentinel:
  assumes "Windows1251 E (CHR 0xC0) = 0x0410"
  shows "\<not> HasPrefix (replicate 429496731 (CHR 0x01) @ [CHR 0xC0]) [CHR 0xFF, CHR 0xFE]
    \<and> \<not> HasPrefix (replicate 429496731 (CHR 0x01) @ [CHR 0xC0]) [CHR 0xFE, CHR 0xFF]
    \<and> \<not> utf8_Valid (replicate 429496731 (CHR 0x01) @ [CHR 0xC0])
    \<and> best_by spec_score (candidate_texts E (replicate 429496731 (CHR 0x01) @ [CHR 0xC0]))
        = replicate 429496731 (CHR 0x01) @ [CHR 0xD0, CHR 0x90]
    \<and> spec_score (replicate 429496731 (CHR 0x01) @ [CHR 0xD0, CHR 0x90]) = - 2147483652
    \<and> RuneError \<notin> set (runes_of (replicate 429496731 (CHR 0x01) @ [CHR 0xD0, CHR 0x90]))
    \<and> scored_fallback_spec E (replicate 429496731 (CHR 0x01) @ [CHR 0xC0])
        = replicate 429496731 (CHR 0x01) @ [CHR 0xD0, CHR 0x90]
    \<and> extractTXT E (replicate 429496731 (CHR 0x01) @ [CHR 0xC0])
        = (replicate 429496731 (CHR 0x01) @ [CHR 0xC3, CHR 0x80], None)"
proof -
  have n: "2147483651 \<le> 5 * int 429496731" by simp
  have sc: "spec_score (replicate 429496731 (CHR 0x01) @ [CHR 0xD0, CHR 0x90])
              = - 2147483652"
    using sentinel_best(2) [OF assms, of 429496731] by simp
  show ?thesis
    apply (rule conjI, rule sentinel_not_bom [THEN conjunct1])
    apply (rule conjI, rule sentinel_not_bom [THEN conjunct2])
    apply (rule conjI, rule sentinel_invalid)
    apply (rule conjI, rule sentinel_best(1) [OF assms])
    apply (rule conjI, rule sc)
    apply (rule conjI, rule sentinel_best(3) [OF assms])
    apply (rule conjI, rule sentinel_spec [OF assms])
    apply (rule extractTXT_sentinel_n [OF n])
    done
qed

theorem extractTXT_sentinel_witness:
  "Windows1251 demo_env (CHR 0xC0) = 0x0410
   \<and> scored_fallback_spec demo_env (replicate 429496731 (CHR 0x01) @ [CHR 0xC0])
        = replicate 429496731 (CHR 0x01) @ [CHR 0xD0, CHR 0x90]
   \<and> extractTXT demo_env (replicate 429496731 (CHR 0x01) @ [CHR 0xC0])
        = (replicate 429496731 (CHR 0x01) @ [CHR 0xC3, CHR 0x80], None)"
proof -
  have h: "Windows1251 demo_env (CHR 0xC0) = 0x0410" by (simp add: demo_env_def)
  note T = extractTXT_sentinel [OF h]
  from h T [THEN conjunct2, THEN conjunct2, THEN conjunct2, THEN conjunct2, THEN conjunct2,
            THEN conjunct2, THEN conjunct1]
    T [THEN conjunct2, THEN conjunct2, THEN conjunct2, THEN conjunct2, THEN conjunct2,
       THEN conjunct2, THEN conjunct2]
  show ?thesis by (intro conjI)
qed

end
